theory Spec2Isabelle
  imports Main "HOL-Library.Word"
begin

section \<open>Machine types and the mapped memory\<close>

text \<open>
  \<^verbatim>\<open>size_t\<close> is the unsigned 64-bit integer of the POSIX targets the code is written for
  (\<^verbatim>\<open>sys/mman.h\<close>): \<open>+\<close> and \<open>-\<close> wrap around, \<open><\<close> and \<open>\<le>\<close> compare unsigned.
  Block ids and handles are C \<^verbatim>\<open>int\<close>s; they only ever count upwards from 0 by one per
  successful allocation or attachment, and are modelled as \<open>int\<close> (signed overflow after
  \<open>2^31\<close> allocations is undefined in C++ and outside this model).

  A pointer is an address (a \<open>nat\<close>, with 0 for \<^verbatim>\<open>NULL\<close>); the process memory is a function
  from addresses to bytes. A caller's buffer \<^verbatim>\<open>buf\<close> is the sequence of bytes found from
  its address onwards.
\<close>

type_synonym size_t = "64 word"
type_synonym byte = "8 word"
type_synonym pointer = nat
type_synonym heap = "nat \<Rightarrow> byte"
type_synonym buffer = "nat \<Rightarrow> byte"

definition bytes_at :: "heap \<Rightarrow> pointer \<Rightarrow> buffer" where
  "bytes_at h p = (\<lambda>i. h (p + i))"

text \<open>
  \<^verbatim>\<open>std::memcpy(dst, src, n)\<close> on a memory \<open>m\<close>: the \<open>n\<close> bytes from \<open>dst\<close> on are replaced
  by the first \<open>n\<close> bytes of \<open>src\<close>, everything else is kept. The source bytes are those
  before the call (for overlapping ranges C leaves the result undefined; the model copies
  the prior contents).
\<close>

definition memcpy :: "(nat \<Rightarrow> byte) \<Rightarrow> nat \<Rightarrow> buffer \<Rightarrow> nat \<Rightarrow> (nat \<Rightarrow> byte)" where
  "memcpy m dst src n = (\<lambda>a. if dst \<le> a \<and> a < dst + n then src (a - dst) else m a)"

text \<open>
  Modelled from the spec: the macros \<^verbatim>\<open>AbortIf\<close> and \<^verbatim>\<open>AbortIfNot\<close> of \<^verbatim>\<open>abort.h\<close>, which is
  not among the sources. Failures are "reported to the immediate caller as a failure
  result": \<^verbatim>\<open>AbortIf(cond, ret)\<close> leaves the enclosing function with \<open>ret\<close> when \<open>cond\<close>
  holds, \<^verbatim>\<open>AbortIfNot(cond, ret)\<close> when it does not; otherwise the function goes on
  (\<open>cont\<close>).
\<close>

definition AbortIf :: "bool \<Rightarrow> 'r \<Rightarrow> 'r \<Rightarrow> 'r" where
  "AbortIf cond ret cont = (if cond then ret else cont)"

definition AbortIfNot :: "bool \<Rightarrow> 'r \<Rightarrow> 'r \<Rightarrow> 'r" where
  "AbortIfNot cond ret cont = (if cond then cont else ret)"

section \<open>MemoryManager\<close>

record Block =
  id_b :: int
  offset_b :: size_t
  size_b :: size_t

record MemoryManager =
  addr_m :: pointer
  in_use_m :: "Block list"
  is_init_m :: bool
  last_index_m :: int
  size_m :: size_t
  vacant_m :: "Block list"

text \<open>The constructor.\<close>

definition MemoryManager_new :: MemoryManager where
  "MemoryManager_new =
     \<lparr>addr_m = 0, in_use_m = [], is_init_m = False, last_index_m = 0, size_m = 0,
      vacant_m = []\<rparr>"

text \<open>
  A \<^verbatim>\<open>std::list\<close> iterator that points at an element is the element together with the
  elements before and after it. \<open>find_iter P xs\<close> is the loop
  \<^verbatim>\<open>for (iter = xs.begin(); iter != end; ++iter) if (P(*iter)) return ...\<close>:
  the position of the first element that satisfies \<open>P\<close>, or \<open>None\<close> when the loop runs
  to the end.
\<close>

type_synonym 'a iterator = "'a list \<times> 'a \<times> 'a list"

fun find_iter :: "('a \<Rightarrow> bool) \<Rightarrow> 'a list \<Rightarrow> 'a iterator option" where
  "find_iter P [] = None"
| "find_iter P (x # xs) =
     (if P x then Some ([], x, xs)
      else (case find_iter P xs of
              None \<Rightarrow> None
            | Some (pre, y, post) \<Rightarrow> Some (x # pre, y, post)))"

text \<open>\<^verbatim>\<open>MemoryManager::lookup\<close>\<close>

definition mm_lookup :: "MemoryManager \<Rightarrow> int \<Rightarrow> Block iterator option" where
  "mm_lookup m i = find_iter (\<lambda>b. id_b b = i) (in_use_m m)"

text \<open>
  \<^verbatim>\<open>MemoryManager::_allocate\<close>, called with an iterator into \<^verbatim>\<open>_vacant\<close>. Returns the new
  id and the updated manager.
\<close>

definition mm_allocate_impl ::
  "MemoryManager \<Rightarrow> Block iterator \<Rightarrow> size_t \<Rightarrow> int \<times> MemoryManager" where
  "mm_allocate_impl m iter sz =
     (case iter of (pre, v, post) \<Rightarrow>
        let rem = size_b v - sz;
            m1 = m\<lparr>in_use_m := in_use_m m @
                     [\<lparr>id_b = last_index_m m, offset_b = offset_b v, size_b = sz\<rparr>]\<rparr>;
            m2 = (if rem = 0 then m1\<lparr>vacant_m := pre @ post\<rparr>
                  else m1\<lparr>vacant_m :=
                            pre @ v\<lparr>size_b := rem, offset_b := offset_b v + sz\<rparr> # post\<rparr>)
        in (last_index_m m, m2\<lparr>last_index_m := last_index_m m + 1\<rparr>))"

text \<open>
  The loop of \<^verbatim>\<open>MemoryManager::defrag\<close> over \<^verbatim>\<open>_in_use\<close>, from the cursor \<open>off\<close>: the
  blocks with their new offsets, the final cursor and the memory after the copies.
\<close>

fun defrag_loop ::
  "pointer \<Rightarrow> Block list \<Rightarrow> size_t \<Rightarrow> heap \<Rightarrow> Block list \<times> size_t \<times> heap" where
  "defrag_loop a [] off h = ([], off, h)"
| "defrag_loop a (b # bs) off h =
     (let h1 = (if off \<noteq> offset_b b
                then memcpy h (a + unat off) (bytes_at h (a + unat (offset_b b)))
                       (unat (size_b b))
                else h);
          b1 = b\<lparr>offset_b := off\<rparr>
      in case defrag_loop a bs (off + size_b b) h1 of
           (bs1, off1, h2) \<Rightarrow> (b1 # bs1, off1, h2))"

text \<open>\<^verbatim>\<open>MemoryManager::defrag\<close>\<close>

definition mm_defrag :: "MemoryManager \<Rightarrow> heap \<Rightarrow> MemoryManager \<times> heap" where
  "mm_defrag m h =
     (case defrag_loop (addr_m m) (in_use_m m) 0 h of
        (bs, off, h1) \<Rightarrow>
          (m\<lparr>in_use_m := bs,
             vacant_m := [\<lparr>id_b = - 1, offset_b = off, size_b = size_m m - off\<rparr>]\<rparr>, h1))"

text \<open>
  \<^verbatim>\<open>MemoryManager::allocate\<close>: the id (or \<open>-1\<close>), the manager and the memory afterwards.
  After \<^verbatim>\<open>defrag()\<close> the code dereferences \<^verbatim>\<open>_vacant.begin()\<close>; \<open>mm_defrag\<close> always leaves
  one vacancy, so the empty case below is never taken.
\<close>

definition mm_allocate :: "MemoryManager \<Rightarrow> heap \<Rightarrow> size_t \<Rightarrow> int \<times> MemoryManager \<times> heap" where
  "mm_allocate m h sz =
     AbortIfNot (is_init_m m) (- 1, m, h)
    (AbortIf (sz > size_m m) (- 1, m, h)
    (if sz = 0 \<or> vacant_m m = [] then (- 1, m, h)
     else case find_iter (\<lambda>v. size_b v \<ge> sz) (vacant_m m) of
       Some iter \<Rightarrow> (case mm_allocate_impl m iter sz of (i, m1) \<Rightarrow> (i, m1, h))
     | None \<Rightarrow>
        (case mm_defrag m h of
           (m1, h1) \<Rightarrow>
             (case vacant_m m1 of
                [] \<Rightarrow> (- 1, m1, h1)
              | v # rest \<Rightarrow>
                  if size_b v \<ge> sz
                  then (case mm_allocate_impl m1 ([], v, rest) sz of
                          (i, m2) \<Rightarrow> (i, m2, h1))
                  else (- 1, m1, h1)))))"

text \<open>\<^verbatim>\<open>MemoryManager::free\<close>\<close>

definition mm_free :: "MemoryManager \<Rightarrow> int \<Rightarrow> bool \<times> MemoryManager" where
  "mm_free m i =
     AbortIfNot (is_init_m m) (False, m)
    (case mm_lookup m i of
       None \<Rightarrow> (False, m)
     | Some (pre, b, post) \<Rightarrow>
         (True, m\<lparr>vacant_m := vacant_m m @
                     [\<lparr>id_b = - 1, offset_b = offset_b b, size_b = size_b b\<rparr>],
                   in_use_m := pre @ post\<rparr>))"

text \<open>\<^verbatim>\<open>MemoryManager::init\<close>\<close>

definition mm_init :: "MemoryManager \<Rightarrow> pointer \<Rightarrow> size_t \<Rightarrow> bool \<times> MemoryManager" where
  "mm_init m addr sz =
     AbortIf (is_init_m m) (False, m)
    (AbortIf (addr = 0 \<or> sz = 0) (False, m)
    (True, m\<lparr>addr_m := addr, size_m := sz,
              vacant_m := vacant_m m @ [\<lparr>id_b = - 1, offset_b = 0, size_b = sz\<rparr>],
              is_init_m := True\<rparr>))"

text \<open>
  \<^verbatim>\<open>MemoryManager::read\<close>: the result and the caller's buffer afterwards (the memory is
  not changed).
\<close>

definition mm_read :: "MemoryManager \<Rightarrow> heap \<Rightarrow> int \<Rightarrow> buffer \<Rightarrow> size_t \<Rightarrow> bool \<times> buffer" where
  "mm_read m h i buf nbytes =
     AbortIfNot (is_init_m m) (False, buf)
    (case mm_lookup m i of
       None \<Rightarrow> (False, buf)
     | Some (pre, b, post) \<Rightarrow>
         AbortIf (size_b b < nbytes) (False, buf)
         (let addr = addr_m m + unat (offset_b b)
          in (True, memcpy buf 0 (bytes_at h addr) (unat nbytes))))"

text \<open>\<^verbatim>\<open>MemoryManager::write\<close>: the result and the memory afterwards.\<close>

definition mm_write :: "MemoryManager \<Rightarrow> heap \<Rightarrow> int \<Rightarrow> buffer \<Rightarrow> size_t \<Rightarrow> bool \<times> heap" where
  "mm_write m h i buf nbytes =
     AbortIfNot (is_init_m m) (False, h)
    (case mm_lookup m i of
       None \<Rightarrow> (False, h)
     | Some (pre, b, post) \<Rightarrow>
         AbortIf (size_b b < nbytes) (False, h)
         (let addr = addr_m m + unat (offset_b b)
          in (True, memcpy h addr buf (unat nbytes))))"

text \<open>
  A caller's sequence of calls on one manager (\<^verbatim>\<open>defrag\<close> is private; it is listed because
  \<^verbatim>\<open>allocate\<close> calls it). A step keeps the manager and the memory and drops the result.
\<close>

datatype mm_op =
  Init pointer size_t
| Allocate size_t
| Free int
| Defrag
| Read int buffer size_t
| Write int buffer size_t

fun mm_step :: "mm_op \<Rightarrow> MemoryManager \<times> heap \<Rightarrow> MemoryManager \<times> heap" where
  "mm_step (Init a sz) (m, h) = (snd (mm_init m a sz), h)"
| "mm_step (Allocate sz) (m, h) = snd (mm_allocate m h sz)"
| "mm_step (Free i) (m, h) = (snd (mm_free m i), h)"
| "mm_step Defrag (m, h) = mm_defrag m h"
| "mm_step (Read i buf n) (m, h) = (m, h)"
| "mm_step (Write i buf n) (m, h) = (m, snd (mm_write m h i buf n))"

fun mm_run :: "mm_op list \<Rightarrow> MemoryManager \<times> heap \<Rightarrow> MemoryManager \<times> heap" where
  "mm_run [] st = st"
| "mm_run (op # ops) st = mm_run ops (mm_step op st)"

section \<open>The pool of the specification\<close>

text \<open>
  The freshly initialised pool: one vacant block spanning the whole capacity, no block in
  use, the id counter at 0.
\<close>

definition fresh_pool :: "pointer \<Rightarrow> size_t \<Rightarrow> MemoryManager" where
  "fresh_pool a C =
     \<lparr>addr_m = a, in_use_m = [], is_init_m = True, last_index_m = 0, size_m = C,
      vacant_m = [\<lparr>id_b = - 1, offset_b = 0, size_b = C\<rparr>]\<rparr>"

text \<open>
  A block covers the bytes \<open>[offset, offset + size)\<close>. A list of blocks partitions
  \<open>[0, C)\<close> when every block lies inside the range and every byte of the range is covered
  by exactly one block of the list (no gap, no overlap).
\<close>

definition covers :: "Block \<Rightarrow> nat \<Rightarrow> bool" where
  "covers b x \<longleftrightarrow> unat (offset_b b) \<le> x \<and> x < unat (offset_b b) + unat (size_b b)"

definition cover_count :: "nat \<Rightarrow> Block list \<Rightarrow> nat" where
  "cover_count x bs = length (filter (\<lambda>b. covers b x) bs)"

definition partitions :: "nat \<Rightarrow> Block list \<Rightarrow> bool" where
  "partitions C bs \<longleftrightarrow>
     (\<forall>b \<in> set bs. unat (offset_b b) + unat (size_b b) \<le> C)
     \<and> (\<forall>x \<in> {0..<C}. cover_count x bs = 1)"

definition sum_sizes :: "Block list \<Rightarrow> nat" where
  "sum_sizes bs = sum_list (map (\<lambda>b. unat (size_b b)) bs)"

text \<open>
  The invariant of an initialised pool of capacity \<open>C\<close>: its blocks partition \<open>[0, C)\<close>
  and their sizes add up to \<open>C\<close>.
\<close>

definition pool_inv :: "size_t \<Rightarrow> MemoryManager \<Rightarrow> bool" where
  "pool_inv C m \<longleftrightarrow>
     is_init_m m \<and> size_m m = C
     \<and> partitions (unat C) (in_use_m m @ vacant_m m)
     \<and> sum_sizes (in_use_m m) + sum_sizes (vacant_m m) = unat C"

text \<open>Every id in use is below the id counter.\<close>

definition ids_below :: "MemoryManager \<Rightarrow> bool" where
  "ids_below m \<longleftrightarrow> (\<forall>i \<in> set (map id_b (in_use_m m)). i < last_index_m m)"

text \<open>
  The first-fit allocation in the words of the specification. \<open>first_fit\<close>: the first
  vacancy, in list order, whose size is at least the requested one. \<open>carve\<close>: a block
  of exactly the requested size is cut from the low end of the vacancy and put in use
  under the next id; the vacancy shrinks by the requested size when something remains
  of it and goes away otherwise. \<open>allocate_spec\<close>: carve from the first fit; without
  one, defragment once and retry against the single vacancy, failing with \<open>-1\<close> when it
  is still too small.
\<close>

definition first_fit :: "size_t \<Rightarrow> Block list \<Rightarrow> Block iterator option" where
  "first_fit sz vs =
     (case dropWhile (\<lambda>v. size_b v < sz) vs of
        [] \<Rightarrow> None
      | v # post \<Rightarrow> Some (takeWhile (\<lambda>v. size_b v < sz) vs, v, post))"

definition carve :: "MemoryManager \<Rightarrow> Block iterator \<Rightarrow> size_t \<Rightarrow> int \<times> MemoryManager" where
  "carve m iter sz =
     (case iter of (pre, v, post) \<Rightarrow>
        (last_index_m m,
         m\<lparr>in_use_m := in_use_m m @
              [\<lparr>id_b = last_index_m m, offset_b = offset_b v, size_b = sz\<rparr>],
           vacant_m :=
             (if size_b v = sz then pre @ post
              else pre @ [\<lparr>id_b = id_b v, offset_b = offset_b v + sz,
                           size_b = size_b v - sz\<rparr>] @ post),
           last_index_m := last_index_m m + 1\<rparr>))"

definition allocate_spec ::
  "MemoryManager \<Rightarrow> heap \<Rightarrow> size_t \<Rightarrow> int \<times> MemoryManager \<times> heap" where
  "allocate_spec m h sz =
     (case first_fit sz (vacant_m m) of
        Some iter \<Rightarrow> (fst (carve m iter sz), snd (carve m iter sz), h)
      | None \<Rightarrow>
          (let m1 = fst (mm_defrag m h); h1 = snd (mm_defrag m h); v = hd (vacant_m m1)
           in if sz \<le> size_b v
              then (fst (carve m1 ([], v, []) sz), snd (carve m1 ([], v, []) sz), h1)
              else (- 1, m1, h1)))"

text \<open>
  Defragmentation in the words of the specification: the cursor starts at 0 and advances
  by the size of each block of \<open>in_use\<close>, in list order; each block is relocated to the
  cursor of its turn, its bytes being copied unless it is already there.
\<close>

fun cursors :: "size_t \<Rightarrow> Block list \<Rightarrow> size_t list" where
  "cursors c [] = []"
| "cursors c (b # bs) = c # cursors (c + size_b b) bs"

definition relocate :: "pointer \<Rightarrow> heap \<Rightarrow> Block \<times> size_t \<Rightarrow> heap" where
  "relocate a h bc =
     (case bc of (b, c) \<Rightarrow>
        if offset_b b = c then h
        else memcpy h (a + unat c) (bytes_at h (a + unat (offset_b b))) (unat (size_b b)))"

text \<open>The bytes of a block: what the memory holds from the block's offset on, for its size.\<close>

definition block_bytes :: "MemoryManager \<Rightarrow> heap \<Rightarrow> Block \<Rightarrow> byte list" where
  "block_bytes m h b =
     map (\<lambda>k. h (addr_m m + unat (offset_b b) + k)) [0..<unat (size_b b)]"

section \<open>The operating system\<close>

text \<open>
  The calls into the operating system are not part of the program: what each call returns
  is an input of the operation that makes it. \<open>errno\<close> is the value of \<^verbatim>\<open>errno\<close> that the
  code reads after \<^verbatim>\<open>mmap\<close>. Flag words are sets of the flags that are or-ed together.
\<close>

datatype access_t = none | read_only | read_write

datatype oflag = O_CREAT | O_RDWR | O_EXCL | O_RDONLY

datatype mode_bit = S_IRWXU | S_IRGRP | S_IROTH | S_IRWXG | S_IRWXO

datatype prot_bit = PROT_READ | PROT_WRITE

record os =
  shm_open :: "string \<Rightarrow> oflag set \<Rightarrow> mode_bit set \<Rightarrow> int"
  ftruncate :: "int \<Rightarrow> size_t \<Rightarrow> int"
  mmap :: "size_t \<Rightarrow> prot_bit set \<Rightarrow> int \<Rightarrow> pointer"
  errno :: int
  munmap :: "pointer \<Rightarrow> size_t \<Rightarrow> int"
  shm_unlink :: "string \<Rightarrow> int"
  close :: "int \<Rightarrow> int"
  mlock :: "pointer \<Rightarrow> size_t \<Rightarrow> int"
  munlock :: "pointer \<Rightarrow> size_t \<Rightarrow> int"
  msync :: "pointer \<Rightarrow> size_t \<Rightarrow> int"

section \<open>RemoteMemory\<close>

record RemoteMemory =
  access_r :: access_t
  addr_r :: pointer
  fd_r :: int
  is_init_r :: bool
  manager_r :: MemoryManager
  mem_id_r :: int
  name_r :: string
  size_r :: size_t

definition RemoteMemory_new :: RemoteMemory where
  "RemoteMemory_new =
     \<lparr>access_r = none, addr_r = 0, fd_r = - 1, is_init_r = False,
      manager_r = MemoryManager_new, mem_id_r = - 1, name_r = [], size_r = 0\<rparr>"

text \<open>\<^verbatim>\<open>RemoteMemory::init\<close> (private)\<close>

definition rm_init ::
  "RemoteMemory \<Rightarrow> access_t \<Rightarrow> string \<Rightarrow> size_t \<Rightarrow> bool \<times> RemoteMemory" where
  "rm_init r access name sz =
     AbortIf (is_init_r r) (False, r)
    (AbortIfNot (length name > 0) (False, r)
    (let r1 = r\<lparr>access_r := access, fd_r := - 1, name_r := name, size_r := sz\<rparr>;
         r2 = (if hd name \<noteq> CHR ''/'' then r1\<lparr>name_r := ''/'' @ name\<rparr> else r1)
     in (True, r2)))"

text \<open>
  \<^verbatim>\<open>RemoteMemory::create\<close>. The members assigned before a failing step keep their new
  values.
\<close>

definition rm_create ::
  "RemoteMemory \<Rightarrow> os \<Rightarrow> heap \<Rightarrow> string \<Rightarrow> access_t \<Rightarrow> size_t \<Rightarrow> bool \<times> RemoteMemory \<times> heap"
  where
  "rm_create r sys h name access sz =
     (case rm_init r access name sz of (ok, r1) \<Rightarrow>
      AbortIfNot ok (False, r1, h)
     (let oflag = {O_CREAT, O_RDWR, O_EXCL};
          prot = {PROT_READ, PROT_WRITE};
          mode = (case access_r r1 of
                    read_only \<Rightarrow> {S_IRWXU} \<union> {S_IRGRP, S_IROTH}
                  | read_write \<Rightarrow> {S_IRWXU} \<union> {S_IRWXG, S_IRWXO}
                  | none \<Rightarrow> {S_IRWXU});
          fd = shm_open sys (name_r r1) oflag mode
      in AbortIf (fd = - 1) (False, r1, h)
     (let r2 = r1\<lparr>fd_r := fd\<rparr>
      in AbortIf (ftruncate sys (fd_r r2) (size_r r2) = - 1) (False, r2, h)
     (let r3 = r2\<lparr>addr_r := mmap sys (size_r r2) prot (fd_r r2)\<rparr>
      in AbortIf (errno sys \<noteq> 0) (False, r3, h)
     (case mm_init (manager_r r3) (addr_r r3) (size_r r3) of (ok1, mgr1) \<Rightarrow>
      let r4 = r3\<lparr>manager_r := mgr1\<rparr>
      in AbortIfNot ok1 (False, r4, h)
     (case mm_allocate (manager_r r4) h (size_r r4) of (i, mgr2, h1) \<Rightarrow>
      let r5 = r4\<lparr>manager_r := mgr2, mem_id_r := i\<rparr>
      in AbortIf (mem_id_r r5 = - 1) (False, r5, h1)
         (True, r5\<lparr>is_init_r := True\<rparr>, h1)))))))"

text \<open>\<^verbatim>\<open>RemoteMemory::destroy\<close>\<close>

definition rm_destroy :: "RemoteMemory \<Rightarrow> os \<Rightarrow> bool \<times> RemoteMemory" where
  "rm_destroy r sys =
     AbortIfNot (is_init_r r) (False, r)
    (AbortIf (munmap sys (addr_r r) (size_r r) = - 1) (False, r)
    (AbortIf (shm_unlink sys (name_r r) = - 1) (False, r)
    (AbortIf (close sys (fd_r r) = - 1) (False, r)
    (True, r\<lparr>is_init_r := False\<rparr>))))"

text \<open>\<^verbatim>\<open>RemoteMemory::read\<close>\<close>

definition rm_read :: "RemoteMemory \<Rightarrow> heap \<Rightarrow> buffer \<Rightarrow> size_t \<Rightarrow> bool \<times> buffer" where
  "rm_read r h buf sz =
     AbortIfNot (is_init_r r) (False, buf)
    (case mm_read (manager_r r) h (mem_id_r r) buf sz of (ok, buf1) \<Rightarrow>
     AbortIfNot ok (False, buf1) (True, buf1))"

text \<open>\<^verbatim>\<open>RemoteMemory::write\<close>\<close>

definition rm_write :: "RemoteMemory \<Rightarrow> os \<Rightarrow> heap \<Rightarrow> buffer \<Rightarrow> size_t \<Rightarrow> bool \<times> heap" where
  "rm_write r sys h buf sz =
     AbortIfNot (is_init_r r) (False, h)
    (AbortIf (mlock sys (addr_r r) (size_r r) = - 1) (False, h)
    (case mm_write (manager_r r) h (mem_id_r r) buf sz of (ok, h1) \<Rightarrow>
     AbortIfNot ok (False, h1)
    (AbortIf (munlock sys (addr_r r) (size_r r) = - 1) (False, h1)
    (AbortIf (msync sys (addr_r r) (size_r r) = - 1) (False, h1)
    (True, h1)))))"

text \<open>The calls made on one owner object over its lifetime.\<close>

datatype rm_op =
  RCreate os string access_t size_t
| RDestroy os
| RRead buffer size_t
| RWrite os buffer size_t

fun rm_step :: "rm_op \<Rightarrow> RemoteMemory \<times> heap \<Rightarrow> RemoteMemory \<times> heap" where
  "rm_step (RCreate sys name access sz) (r, h) = snd (rm_create r sys h name access sz)"
| "rm_step (RDestroy sys) (r, h) = (snd (rm_destroy r sys), h)"
| "rm_step (RRead buf sz) (r, h) = (r, h)"
| "rm_step (RWrite sys buf sz) (r, h) = (r, snd (rm_write r sys h buf sz))"

fun rm_run :: "rm_op list \<Rightarrow> RemoteMemory \<times> heap \<Rightarrow> RemoteMemory \<times> heap" where
  "rm_run [] st = st"
| "rm_run (op # ops) st = rm_run ops (rm_step op st)"

section \<open>MemoryClient\<close>

record Server =
  access_s :: access_t
  addr_s :: pointer
  fd_s :: int
  id_s :: int
  manager_s :: MemoryManager
  mem_id_s :: int
  name_s :: string
  size_s :: size_t

text \<open>The constructor of \<^verbatim>\<open>Server\<close>.\<close>

definition Server_new ::
  "access_t \<Rightarrow> pointer \<Rightarrow> int \<Rightarrow> int \<Rightarrow> string \<Rightarrow> size_t \<Rightarrow> Server" where
  "Server_new access addr fd i name sz =
     \<lparr>access_s = access, addr_s = addr, fd_s = fd, id_s = i,
      manager_s = MemoryManager_new, mem_id_s = - 1, name_s = name, size_s = sz\<rparr>"

text \<open>\<^verbatim>\<open>Server::init\<close>\<close>

definition server_init :: "Server \<Rightarrow> bool \<times> Server" where
  "server_init s =
     (case mm_init (manager_s s) (addr_s s) (size_s s) of (ok, mgr) \<Rightarrow>
      AbortIfNot ok (False, s\<lparr>manager_s := mgr\<rparr>) (True, s\<lparr>manager_s := mgr\<rparr>))"

record MemoryClient =
  last_id_c :: int
  servers_c :: "Server list"

definition MemoryClient_new :: MemoryClient where
  "MemoryClient_new = \<lparr>last_id_c = 0, servers_c = []\<rparr>"

text \<open>\<^verbatim>\<open>MemoryClient::lookup\<close>\<close>

definition mc_lookup :: "MemoryClient \<Rightarrow> int \<Rightarrow> Server iterator option" where
  "mc_lookup c i = find_iter (\<lambda>s. id_s s = i) (servers_c c)"

text \<open>
  \<^verbatim>\<open>MemoryClient::attach\<close>. The last argument is the caller's variable \<^verbatim>\<open>id\<close>, which is only
  assigned on success; the result holds its value after the call.
\<close>

definition mc_attach ::
  "MemoryClient \<Rightarrow> os \<Rightarrow> heap \<Rightarrow> string \<Rightarrow> access_t \<Rightarrow> size_t \<Rightarrow> int
     \<Rightarrow> bool \<times> MemoryClient \<times> heap \<times> int" where
  "mc_attach c sys h name access sz i =
     (let (oflag, prot) =
            (case access of
               read_only \<Rightarrow> ({O_RDONLY}, {PROT_READ})
             | read_write \<Rightarrow> ({O_RDWR}, {PROT_READ, PROT_WRITE})
             | none \<Rightarrow> ({}, {}))
      in AbortIf (length name = 0) (False, c, h, i)
     (let real_name = (if hd name \<noteq> CHR ''/'' then ''/'' @ name else name)
      in AbortIf (\<exists>s \<in> set (servers_c c). name_s s = real_name) (False, c, h, i)
     (let fd = shm_open sys real_name oflag {}
      in AbortIf (fd = - 1) (False, c, h, i)
     (let addr = mmap sys sz prot fd
      in AbortIf (errno sys \<noteq> 0) (False, c, h, i)
     (let server = Server_new access addr fd (last_id_c c) real_name sz
      in case server_init server of (ok, server1) \<Rightarrow>
         AbortIfNot ok (False, c, h, i)
     (case mm_allocate (manager_s server1) h sz of (mid, mgr, h1) \<Rightarrow>
      let server2 = server1\<lparr>manager_s := mgr, mem_id_s := mid\<rparr>
      in AbortIf (mem_id_s server2 < 0) (False, c, h1, i)
         (True, c\<lparr>servers_c := servers_c c @ [server2], last_id_c := last_id_c c + 1\<rparr>,
          h1, last_id_c c)))))))"

text \<open>\<^verbatim>\<open>MemoryClient::destroy\<close>\<close>

definition mc_destroy :: "MemoryClient \<Rightarrow> os \<Rightarrow> int \<Rightarrow> bool \<times> MemoryClient" where
  "mc_destroy c sys i =
     (case mc_lookup c i of
        None \<Rightarrow> (False, c)
      | Some (pre, s, post) \<Rightarrow>
          AbortIf (munmap sys (addr_s s) (size_s s) = - 1) (False, c)
         (AbortIf (close sys (fd_s s) = - 1) (False, c)
         (True, c\<lparr>servers_c := pre @ post\<rparr>)))"

text \<open>\<^verbatim>\<open>MemoryClient::read\<close>\<close>

definition mc_read :: "MemoryClient \<Rightarrow> heap \<Rightarrow> int \<Rightarrow> buffer \<Rightarrow> size_t \<Rightarrow> bool \<times> buffer" where
  "mc_read c h i buf sz =
     (case mc_lookup c i of
        None \<Rightarrow> (False, buf)
      | Some (pre, s, post) \<Rightarrow>
          (case mm_read (manager_s s) h (mem_id_s s) buf sz of (ok, buf1) \<Rightarrow>
           AbortIfNot ok (False, buf1) (True, buf1)))"

text \<open>\<^verbatim>\<open>MemoryClient::write\<close>\<close>

definition mc_write ::
  "MemoryClient \<Rightarrow> os \<Rightarrow> heap \<Rightarrow> int \<Rightarrow> buffer \<Rightarrow> size_t \<Rightarrow> bool \<times> heap" where
  "mc_write c sys h i buf sz =
     (case mc_lookup c i of
        None \<Rightarrow> (False, h)
      | Some (pre, s, post) \<Rightarrow>
          AbortIf (access_s s \<noteq> read_write) (False, h)
         (AbortIf (mlock sys (addr_s s) (size_s s) = - 1) (False, h)
         (case mm_write (manager_s s) h (mem_id_s s) buf sz of (ok, h1) \<Rightarrow>
          AbortIfNot ok (False, h1)
         (AbortIf (munlock sys (addr_s s) (size_s s) = - 1) (False, h1)
         (AbortIf (msync sys (addr_s s) (size_s s) = - 1) (False, h1)
         (True, h1))))))"

text \<open>The calls made on one client object.\<close>

datatype mc_op =
  Attach os string access_t size_t
| Destroy os int
| CRead int buffer size_t
| CWrite os int buffer size_t

fun mc_step :: "mc_op \<Rightarrow> MemoryClient \<times> heap \<Rightarrow> MemoryClient \<times> heap" where
  "mc_step (Attach sys name access sz) (c, h) =
     (case mc_attach c sys h name access sz 0 of (ok, c1, h1, i) \<Rightarrow> (c1, h1))"
| "mc_step (Destroy sys i) (c, h) = (snd (mc_destroy c sys i), h)"
| "mc_step (CRead i buf sz) (c, h) = (c, h)"
| "mc_step (CWrite sys i buf sz) (c, h) = (c, snd (mc_write c sys h i buf sz))"

fun mc_run :: "mc_op list \<Rightarrow> MemoryClient \<times> heap \<Rightarrow> MemoryClient \<times> heap" where
  "mc_run [] st = st"
| "mc_run (op # ops) st = mc_run ops (mc_step op st)"

text \<open>
  The name of a region in the words of the specification: the separator of the
  shared-memory namespace is put in front when it is missing.
\<close>

definition normalize_name :: "string \<Rightarrow> string" where
  "normalize_name name = (case name of [] \<Rightarrow> ''/'' | c # cs \<Rightarrow> if c = CHR ''/'' then name else CHR ''/'' # name)"

section \<open>Example states\<close>

definition zero_heap :: heap where
  "zero_heap = (\<lambda>_. 0)"

text \<open>
  A pool of four bytes after \<^verbatim>\<open>allocate(2)\<close>, \<^verbatim>\<open>allocate(2)\<close>, \<^verbatim>\<open>free(0)\<close>, \<^verbatim>\<open>allocate(2)\<close>:
  it is full, and the block that comes first in \<open>in_use\<close> lies behind the second one.
\<close>

definition crossed_pool :: MemoryManager where
  "crossed_pool =
     fst (mm_run [Allocate 2, Allocate 2, Free 0, Allocate 2] (fresh_pool 4096 4, zero_heap))"

text \<open>The bytes of \<^verbatim>\<open>"AB"\<close> and of \<^verbatim>\<open>"Z"\<close>.\<close>

definition buf_AB :: buffer where
  "buf_AB = (\<lambda>k. if k < 2 then [65, 66] ! k else 0)"

definition buf_Z :: buffer where
  "buf_Z = (\<lambda>k. if k < 1 then 90 else 0)"

text \<open>
  A pool of four bytes and its memory after \<^verbatim>\<open>allocate(2)\<close>, \<^verbatim>\<open>allocate(2)\<close>, \<^verbatim>\<open>free(0)\<close>,
  \<^verbatim>\<open>allocate(1)\<close>, \<^verbatim>\<open>write(1, "AB", 2)\<close>, \<^verbatim>\<open>write(2, "Z", 1)\<close>; and the same after the
  defragmentation that a following \<^verbatim>\<open>allocate(2)\<close> runs.
\<close>

definition letters_pool :: "MemoryManager \<times> heap" where
  "letters_pool =
     mm_run [Allocate 2, Allocate 2, Free 0, Allocate 1, Write 1 buf_AB 2, Write 2 buf_Z 1]
       (fresh_pool 4096 4, zero_heap)"

definition letters_defragged :: "MemoryManager \<times> heap" where
  "letters_defragged = mm_defrag (fst letters_pool) (snd letters_pool)"

text \<open>An operating system on which every call succeeds; the mapping is at address 4096.\<close>

definition good_os :: os where
  "good_os =
     \<lparr>shm_open = (\<lambda>_ _ _. 3), ftruncate = (\<lambda>_ _. 0), mmap = (\<lambda>_ _ _. 4096), errno = 0,
      munmap = (\<lambda>_ _. 0), shm_unlink = (\<lambda>_. 0), close = (\<lambda>_. 0),
      mlock = (\<lambda>_ _. 0), munlock = (\<lambda>_ _. 0), msync = (\<lambda>_ _. 0)\<rparr>"

text \<open>The bytes of \<^verbatim>\<open>"hello"\<close>.\<close>

definition hello :: buffer where
  "hello = (\<lambda>k. if k < 5 then [104, 101, 108, 108, 111] ! k else 0)"

text \<open>
  The second owner of the test program \<^verbatim>\<open>SharedMemory_ut.cpp\<close>:
  \<^verbatim>\<open>remote2.create("test2", SharedMemory::read_only, 10)\<close>.
\<close>

definition test2_owner :: RemoteMemory where
  "test2_owner = fst (snd (rm_create RemoteMemory_new good_os zero_heap ''test2'' read_only 10))"

section \<open>Invariants of a client\<close>

text \<open>Every handle in use is below the handle counter.\<close>

definition client_inv :: "MemoryClient \<Rightarrow> bool" where
  "client_inv c \<longleftrightarrow> (\<forall>s \<in> set (servers_c c). id_s s < last_id_c c)"

text \<open>
  The handle \<open>i\<close> has been issued, and every record that carries it was attached with
  read-only access.
\<close>

definition ro_handle :: "int \<Rightarrow> MemoryClient \<Rightarrow> bool" where
  "ro_handle i c \<longleftrightarrow>
     i < last_id_c c \<and> (\<forall>s \<in> set (servers_c c). id_s s = i \<longrightarrow> access_s s = read_only)"

text \<open>
  The client of the test program \<^verbatim>\<open>MemoryClient_ut.cpp\<close>: after
  \<^verbatim>\<open>attach("test1", read_write, 10, id1)\<close>, and after
  \<^verbatim>\<open>attach("test2", read_only, 10, id2)\<close> as well.
\<close>

definition test1_client :: MemoryClient where
  "test1_client =
     fst (snd (mc_attach MemoryClient_new good_os zero_heap ''test1'' read_write 10 7))"

definition test_client :: MemoryClient where
  "test_client =
     fst (snd (mc_attach test1_client good_os zero_heap ''test2'' read_only 10 7))"

section \<open>Facts about iterators\<close>

lemma find_iter_Some:
  "find_iter P xs = Some (pre, y, post) \<Longrightarrow>
     xs = pre @ y # post \<and> P y \<and> (\<forall>x \<in> set pre. \<not> P x)"
proof (induction xs arbitrary: pre)
  case Nil
  then show ?case by simp
next
  case (Cons x xs)
  show ?case
  proof (cases "P x")
    case True
    with Cons.prems show ?thesis by auto
  next
    case False
    with Cons.prems obtain pre' where
      rec: "find_iter P xs = Some (pre', y, post)" and pre: "pre = x # pre'"
      by (auto split: option.splits)
    from Cons.IH [OF rec] pre False show ?thesis by auto
  qed
qed

lemma find_iter_None: "find_iter P xs = None \<longleftrightarrow> (\<forall>x \<in> set xs. \<not> P x)"
  by (induction xs) (auto split: option.splits)

lemma find_iter_find:
  "find_iter P xs = Some (pre, y, post) \<Longrightarrow> find P xs = Some y"
  by (induction xs arbitrary: pre) (auto split: if_splits option.splits)

lemma find_iter_find_None: "find_iter P xs = None \<longleftrightarrow> find P xs = None"
  by (induction xs) (auto split: option.splits)

section \<open>The first allocation of a fresh pool\<close>

lemma mm_init_new:
  "C \<noteq> 0 \<Longrightarrow> a \<noteq> 0 \<Longrightarrow> mm_init MemoryManager_new a C = (True, fresh_pool a C)"
  by (simp add: mm_init_def MemoryManager_new_def fresh_pool_def AbortIf_def)

text \<open>
  C4. For every capacity \<open>C > 0\<close> (and a buffer that is not \<^verbatim>\<open>NULL\<close>), \<open>init\<close> on a newly
  constructed manager succeeds and gives the freshly initialised pool; \<open>allocate(C)\<close> on
  that pool succeeds (it returns the id 0, not \<open>-1\<close>) and leaves exactly one block in use,
  with offset 0 and size \<open>C\<close>, and no vacancy. The memory is not touched.
\<close>

theorem fresh_pool_full_allocation:
  assumes "C \<noteq> 0" and "a \<noteq> 0"
  shows "mm_init MemoryManager_new a C = (True, fresh_pool a C)
         \<and> mm_allocate (fresh_pool a C) h C
             = (0, (fresh_pool a C)\<lparr>in_use_m := [\<lparr>id_b = 0, offset_b = 0, size_b = C\<rparr>],
                                    vacant_m := [], last_index_m := 1\<rparr>, h)"
  using assms
  by (simp add: mm_init_def mm_allocate_def mm_allocate_impl_def MemoryManager_new_def
      fresh_pool_def AbortIf_def AbortIfNot_def)

theorem fresh_pool_full_allocation_witness:
  "(10 :: size_t) \<noteq> 0 \<and> (4096 :: pointer) \<noteq> 0
   \<and> mm_init MemoryManager_new 4096 10 = (True, fresh_pool 4096 10)
   \<and> fst (mm_allocate (fresh_pool 4096 10) (\<lambda>_. 0) 10) = 0
   \<and> in_use_m (fst (snd (mm_allocate (fresh_pool 4096 10) (\<lambda>_. 0) 10)))
       = [\<lparr>id_b = 0, offset_b = 0, size_b = 10\<rparr>]"
  using fresh_pool_full_allocation [of 10 4096 "\<lambda>_. 0"]
  by simp

section \<open>Allocating and freeing on a fresh pool\<close>

lemma word_sub_less_self: "(S::size_t) \<noteq> 0 \<Longrightarrow> S \<le> C \<Longrightarrow> C - S < C"
  by (simp add: word_less_nat_alt word_le_nat_alt unat_sub unat_gt_0 [symmetric])

text \<open>
  C8. For every capacity \<open>C\<close> and size \<open>S\<close> with \<open>0 < S \<le> C\<close>: on the fresh pool that
  \<open>init\<close> gives for the capacity \<open>C\<close>, \<open>allocate(S)\<close> succeeds with id 0 and \<open>free(0)\<close>
  succeeds; afterwards nothing is in use, a defragmentation would give back the single
  vacancy of the fresh pool (only the id counter has moved on), and \<open>allocate(C)\<close>
  succeeds: it returns the id 1 and puts the whole capacity in use at offset 0. The
  memory is not touched.
\<close>

theorem allocate_free_round_trip:
  assumes "S \<noteq> 0" and "S \<le> C" and "a \<noteq> 0"
  shows "let m1 = fst (snd (mm_allocate (fresh_pool a C) h S));
             m2 = snd (mm_free m1 0);
             r3 = mm_allocate m2 h C
         in mm_init MemoryManager_new a C = (True, fresh_pool a C)
            \<and> fst (mm_allocate (fresh_pool a C) h S) = 0
            \<and> snd (snd (mm_allocate (fresh_pool a C) h S)) = h
            \<and> fst (mm_free m1 0)
            \<and> in_use_m m2 = []
            \<and> mm_defrag m2 h = ((fresh_pool a C)\<lparr>last_index_m := 1\<rparr>, h)
            \<and> fst r3 = 1
            \<and> in_use_m (fst (snd r3)) = [\<lparr>id_b = 1, offset_b = 0, size_b = C\<rparr>]
            \<and> vacant_m (fst (snd r3)) = []
            \<and> snd (snd r3) = h"
proof (cases "S = C")
  case True
  with assms show ?thesis
    by (simp add: mm_init_def MemoryManager_new_def mm_allocate_def mm_allocate_impl_def
      mm_free_def mm_lookup_def mm_defrag_def fresh_pool_def AbortIf_def AbortIfNot_def Let_def)
next
  case False
  with assms have lt: "S < C" by simp
  have 1: "C - S \<noteq> 0" using False by simp
  have 2: "\<not> C \<le> C - S" using word_sub_less_self [OF assms(1,2)] by simp
  have 3: "\<not> C \<le> S" using lt by simp
  have 4: "C \<noteq> 0" using lt by auto
  have 5: "\<not> C < S" using assms(2) by simp
  from assms 1 2 3 4 5 show ?thesis
    by (simp add: mm_init_def MemoryManager_new_def mm_allocate_def mm_allocate_impl_def
      mm_free_def mm_lookup_def mm_defrag_def fresh_pool_def AbortIf_def AbortIfNot_def Let_def)
qed

theorem allocate_free_round_trip_witness:
  "(4 :: size_t) \<noteq> 0 \<and> (4 :: size_t) \<le> 10 \<and> (4096 :: pointer) \<noteq> 0
   \<and> fst (mm_allocate (fresh_pool 4096 10) (\<lambda>_. 0) 4) = 0
   \<and> fst (mm_free (fst (snd (mm_allocate (fresh_pool 4096 10) (\<lambda>_. 0) 4))) 0)
   \<and> fst (mm_allocate
        (snd (mm_free (fst (snd (mm_allocate (fresh_pool 4096 10) (\<lambda>_. 0) 4))) 0))
        (\<lambda>_. 0) 10) = 1"
proof -
  have hyp: "(4 :: size_t) \<noteq> 0" "(4 :: size_t) \<le> 10" "(4096 :: pointer) \<noteq> 0"
    by simp_all
  from allocate_free_round_trip [OF hyp, of "\<lambda>_. 0"] hyp show ?thesis
    by (simp add: Let_def)
qed

section \<open>Reading and writing a block\<close>

text \<open>
  C7. \<open>read\<close> and \<open>write\<close> fail exactly when the manager is not initialised, no block in
  use has the id, or \<open>nbytes\<close> exceeds the size recorded for the (first) block with that
  id. A failing \<open>read\<close> leaves the caller's buffer as it was and a failing \<open>write\<close> leaves
  the memory as it was. A successful \<open>read\<close> puts the \<open>nbytes\<close> bytes found at the block's
  offset into the caller's buffer and nothing else; a successful \<open>write\<close> replaces exactly
  the \<open>nbytes\<close> bytes at the block's offset by the caller's.
\<close>

theorem read_write_failure:
  "(\<not> fst (mm_read m h i buf n) \<longleftrightarrow>
      \<not> is_init_m m \<or> i \<notin> id_b ` set (in_use_m m)
      \<or> (\<exists>b. find (\<lambda>b. id_b b = i) (in_use_m m) = Some b \<and> size_b b < n))
   \<and> (\<not> fst (mm_write m h i buf n) \<longleftrightarrow>
      \<not> is_init_m m \<or> i \<notin> id_b ` set (in_use_m m)
      \<or> (\<exists>b. find (\<lambda>b. id_b b = i) (in_use_m m) = Some b \<and> size_b b < n))
   \<and> (\<not> fst (mm_read m h i buf n) \<longrightarrow> snd (mm_read m h i buf n) = buf)
   \<and> (\<not> fst (mm_write m h i buf n) \<longrightarrow> snd (mm_write m h i buf n) = h)
   \<and> (\<forall>b. fst (mm_read m h i buf n) \<and> find (\<lambda>b. id_b b = i) (in_use_m m) = Some b \<longrightarrow>
        snd (mm_read m h i buf n)
          = (\<lambda>k. if k < unat n then h (addr_m m + unat (offset_b b) + k) else buf k))
   \<and> (\<forall>b. fst (mm_write m h i buf n) \<and> find (\<lambda>b. id_b b = i) (in_use_m m) = Some b \<longrightarrow>
        snd (mm_write m h i buf n)
          = (\<lambda>a. if addr_m m + unat (offset_b b) \<le> a
                     \<and> a < addr_m m + unat (offset_b b) + unat n
                  then buf (a - (addr_m m + unat (offset_b b))) else h a))"
proof (cases "find_iter (\<lambda>b. id_b b = i) (in_use_m m)")
  case None
  then have nf: "find (\<lambda>b. id_b b = i) (in_use_m m) = None"
    by (simp add: find_iter_find_None)
  then have notin: "i \<notin> id_b ` set (in_use_m m)"
    by (auto simp: find_None_iff)
  from None nf notin show ?thesis
    by (simp add: mm_read_def mm_write_def mm_lookup_def AbortIf_def AbortIfNot_def)
next
  case (Some it)
  obtain pre b post where it: "it = (pre, b, post)" by (cases it)
  from Some it have f: "find (\<lambda>b. id_b b = i) (in_use_m m) = Some b"
    by (simp add: find_iter_find)
  then have isin: "i \<in> id_b ` set (in_use_m m)"
    by (auto simp: find_Some_iff)
  from Some it f isin show ?thesis
    by (auto simp: mm_read_def mm_write_def mm_lookup_def AbortIf_def AbortIfNot_def
        memcpy_def bytes_at_def Let_def fun_eq_iff)
qed

theorem read_write_failure_witness:
  "\<not> fst (mm_write (fst (snd (mm_allocate (fresh_pool 4096 10) (\<lambda>_. 0) 10))) (\<lambda>_. 0) 0
          (\<lambda>k. of_nat (k + 65)) 11)
   \<and> snd (mm_write (fst (snd (mm_allocate (fresh_pool 4096 10) (\<lambda>_. 0) 10))) (\<lambda>_. 0) 0
          (\<lambda>k. of_nat (k + 65)) 11) = (\<lambda>_. 0)
   \<and> \<not> fst (mm_read (fst (snd (mm_allocate (fresh_pool 4096 10) (\<lambda>_. 0) 10))) (\<lambda>_. 7) 3
          (\<lambda>_. 1) 2)
   \<and> snd (mm_read (fst (snd (mm_allocate (fresh_pool 4096 10) (\<lambda>_. 0) 10))) (\<lambda>_. 7) 3
          (\<lambda>_. 1) 2) = (\<lambda>_. 1)"
proof -
  let ?m = "fst (snd (mm_allocate (fresh_pool 4096 10) (\<lambda>_. 0) 10))"
  have iu: "in_use_m ?m = [\<lparr>id_b = 0, offset_b = 0, size_b = 10\<rparr>]"
    by (simp add: mm_allocate_def mm_allocate_impl_def fresh_pool_def AbortIf_def
        AbortIfNot_def)
  have big: "\<exists>b. find (\<lambda>b. id_b b = 0) (in_use_m ?m) = Some b \<and> size_b b < 11"
    by (simp add: iu)
  have unknown: "3 \<notin> id_b ` set (in_use_m ?m)"
    by (simp add: iu)
  from read_write_failure [of ?m "\<lambda>_. 0" 0 "\<lambda>k. of_nat (k + 65)" 11]
    read_write_failure [of ?m "\<lambda>_. 7" 3 "\<lambda>_. 1" 2] big unknown
  show ?thesis by blast
qed

section \<open>First-fit allocation\<close>

lemma first_fit_find_iter: "first_fit sz vs = find_iter (\<lambda>v. size_b v \<ge> sz) vs"
proof (induction vs)
  case Nil
  show ?case by (simp add: first_fit_def)
next
  case (Cons v vs)
  show ?case
  proof (cases "sz \<le> size_b v")
    case True
    then have "\<not> size_b v < sz" by simp
    with True show ?thesis by (simp add: first_fit_def)
  next
    case False
    then have lt: "size_b v < sz" by simp
    then have "first_fit sz (v # vs) =
        (case first_fit sz vs of None \<Rightarrow> None | Some (pre, y, post) \<Rightarrow> Some (v # pre, y, post))"
      by (simp add: first_fit_def del: dropWhile_eq_Nil_conv split: list.split)
    with False show ?thesis
      by (simp add: Cons.IH)
  qed
qed

lemma carve_allocate_impl: "carve m iter sz = mm_allocate_impl m iter sz"
  by (cases iter) (simp add: carve_def mm_allocate_impl_def Let_def)

lemma mm_defrag_vacant:
  "\<exists>v. vacant_m (fst (mm_defrag m h)) = [v]"
  by (simp add: mm_defrag_def split: prod.splits)

lemma crossed_pool_eq:
  "crossed_pool =
     \<lparr>addr_m = 4096,
      in_use_m = [\<lparr>id_b = 1, offset_b = 2, size_b = 2\<rparr>, \<lparr>id_b = 2, offset_b = 0, size_b = 2\<rparr>],
      is_init_m = True, last_index_m = 3, size_m = 4, vacant_m = []\<rparr>"
  by (simp add: crossed_pool_def mm_allocate_def mm_allocate_impl_def mm_free_def mm_lookup_def
      mm_defrag_def fresh_pool_def AbortIf_def AbortIfNot_def Let_def)

text \<open>
  C3, as stated, fails on a pool without any vacancy. \<open>crossed_pool\<close> is initialised and
  full, and the requested size 1 is positive and within the capacity: \<open>allocate\<close> returns
  \<open>-1\<close> at once and leaves the pool and the memory as they are, whereas the scan, the
  defragmentation and the retry of the claim would relocate both blocks in use.
\<close>

theorem allocate_first_fit_counterexample:
  "is_init_m crossed_pool \<and> (1 :: size_t) \<noteq> 0 \<and> 1 \<le> size_m crossed_pool
   \<and> mm_allocate crossed_pool zero_heap 1 = (- 1, crossed_pool, zero_heap)
   \<and> in_use_m (fst (snd (allocate_spec crossed_pool zero_heap 1)))
       = [\<lparr>id_b = 1, offset_b = 0, size_b = 2\<rparr>, \<lparr>id_b = 2, offset_b = 2, size_b = 2\<rparr>]
   \<and> mm_allocate crossed_pool zero_heap 1 \<noteq> allocate_spec crossed_pool zero_heap 1"
  by (simp add: crossed_pool_eq mm_allocate_def allocate_spec_def first_fit_def carve_def
      mm_defrag_def AbortIf_def AbortIfNot_def Let_def)

text \<open>
  C3, amended. For an initialised manager and a requested size with
  \<open>0 < size \<le> capacity\<close>: when the vacant list is empty, \<open>allocate\<close> returns \<open>-1\<close> at once,
  without a scan or a defragmentation, and changes nothing. When the vacant list is not
  empty, \<open>allocate\<close> is the first-fit allocation of the specification: the first vacancy in
  list order with \<open>size \<ge> requested\<close> is carved from its low end under the id
  \<open>next-id++\<close> (the vacancy shrinks when a remainder is left and is removed otherwise);
  without such a vacancy the pool is defragmented once, which always leaves a single
  vacancy, and the request is carved from that vacancy or fails with \<open>-1\<close> when it is
  still too small.
\<close>

theorem allocate_first_fit:
  assumes "is_init_m m" and "sz \<noteq> 0" and "sz \<le> size_m m"
  shows "(vacant_m m \<noteq> [] \<longrightarrow> mm_allocate m h sz = allocate_spec m h sz)
         \<and> (vacant_m m = [] \<longrightarrow> mm_allocate m h sz = (- 1, m, h))
         \<and> (\<exists>v. vacant_m (fst (mm_defrag m h)) = [v])"
proof -
  obtain v where v: "vacant_m (fst (mm_defrag m h)) = [v]"
    using mm_defrag_vacant by blast
  have "mm_allocate m h sz = allocate_spec m h sz" if "vacant_m m \<noteq> []"
    using that assms v
    by (auto simp: mm_allocate_def allocate_spec_def first_fit_find_iter carve_allocate_impl
        AbortIf_def AbortIfNot_def Let_def not_less split: option.splits prod.splits list.splits)
  moreover have "mm_allocate m h sz = (- 1, m, h)" if "vacant_m m = []"
    using that assms by (simp add: mm_allocate_def AbortIf_def AbortIfNot_def)
  ultimately show ?thesis using v by blast
qed

theorem allocate_first_fit_witness:
  "is_init_m (fresh_pool 4096 10) \<and> (4 :: size_t) \<noteq> 0 \<and> 4 \<le> size_m (fresh_pool 4096 10)
   \<and> vacant_m (fresh_pool 4096 10) \<noteq> []
   \<and> mm_allocate (fresh_pool 4096 10) zero_heap 4 = allocate_spec (fresh_pool 4096 10) zero_heap 4
   \<and> is_init_m crossed_pool \<and> 1 \<le> size_m crossed_pool \<and> vacant_m crossed_pool = []
   \<and> mm_allocate crossed_pool zero_heap 1 = (- 1, crossed_pool, zero_heap)"
proof -
  have a: "is_init_m (fresh_pool 4096 10)" "(4 :: size_t) \<noteq> 0" "4 \<le> size_m (fresh_pool 4096 10)"
    and b: "vacant_m (fresh_pool 4096 10) \<noteq> []"
    by (simp_all add: fresh_pool_def)
  have c: "is_init_m crossed_pool" "(1 :: size_t) \<noteq> 0" "1 \<le> size_m crossed_pool"
    and d: "vacant_m crossed_pool = []"
    by (simp_all add: crossed_pool_eq)
  from allocate_first_fit [OF a, of zero_heap] allocate_first_fit [OF c, of zero_heap] a b c d
  show ?thesis by blast
qed

section \<open>The pool invariant\<close>

lemma cover_count_simps:
  "cover_count x [] = 0"
  "cover_count x (b # bs) = (if covers b x then 1 else 0) + cover_count x bs"
  "cover_count x (xs @ ys) = cover_count x xs + cover_count x ys"
  by (simp_all add: cover_count_def)

lemma sum_sizes_simps:
  "sum_sizes [] = 0"
  "sum_sizes (b # bs) = unat (size_b b) + sum_sizes bs"
  "sum_sizes (xs @ ys) = sum_sizes xs + sum_sizes ys"
  by (simp_all add: sum_sizes_def)

lemma unat_size_t_less: "unat (x :: size_t) < 2 ^ 64"
  using unsigned_less [of x, where 'a = nat] by (simp add: cover_count_simps sum_sizes_simps)

lemma carve_unat:
  assumes "unat (offset_b v) + unat (size_b v) \<le> unat (C :: size_t)" and "sz \<le> size_b v"
  shows "unat (offset_b v + sz) = unat (offset_b v) + unat sz"
    and "unat (size_b v - sz) = unat (size_b v) - unat sz"
    and "unat sz \<le> unat (size_b v)"
proof -
  show le: "unat sz \<le> unat (size_b v)"
    using assms(2) by (simp add: cover_count_simps sum_sizes_simps word_le_nat_alt)
  have "unat (offset_b v) + unat sz < 2 ^ 64"
    using le assms(1) unat_size_t_less [of C] by (simp add: cover_count_simps sum_sizes_simps)
  then show "unat (offset_b v + sz) = unat (offset_b v) + unat sz"
    using unat_add_lem [of "offset_b v" sz] by (simp add: cover_count_simps sum_sizes_simps)
  show "unat (size_b v - sz) = unat (size_b v) - unat sz"
    using assms(2) by (rule unat_sub)
qed

lemma pool_inv_rearrange:
  assumes "pool_inv C m"
    and "is_init_m m'" and "size_m m' = size_m m"
    and "\<forall>b \<in> set (in_use_m m' @ vacant_m m'). unat (offset_b b) + unat (size_b b) \<le> unat C"
    and "\<And>x. cover_count x (in_use_m m' @ vacant_m m') = cover_count x (in_use_m m @ vacant_m m)"
    and "sum_sizes (in_use_m m') + sum_sizes (vacant_m m')
           = sum_sizes (in_use_m m) + sum_sizes (vacant_m m)"
  shows "pool_inv C m'"
  using assms unfolding pool_inv_def partitions_def by (simp add: cover_count_simps sum_sizes_simps)

lemma pool_inv_allocate_impl:
  assumes inv: "pool_inv C m" and vac: "vacant_m m = pre @ v # post" and le: "sz \<le> size_b v"
  shows "pool_inv C (snd (mm_allocate_impl m (pre, v, post) sz))"
proof -
  from inv vac have bound: "unat (offset_b v) + unat (size_b v) \<le> unat C"
    by (simp add: cover_count_simps sum_sizes_simps pool_inv_def partitions_def)
  from inv vac have bounds:
    "\<forall>b \<in> set (in_use_m m) \<union> set pre \<union> set post. unat (offset_b b) + unat (size_b b) \<le> unat C"
    by (simp add: cover_count_simps sum_sizes_simps pool_inv_def partitions_def)
  note u = carve_unat [OF bound le]
  have rem0: "size_b v - sz = 0 \<longleftrightarrow> unat (size_b v) = unat sz"
    using word_unat_eq_iff [of "size_b v" sz] by (auto simp: cover_count_simps sum_sizes_simps)
  let ?new = "\<lparr>id_b = last_index_m m, offset_b = offset_b v, size_b = sz\<rparr>"
  let ?v' = "v\<lparr>size_b := size_b v - sz, offset_b := offset_b v + sz\<rparr>"
  let ?m' = "snd (mm_allocate_impl m (pre, v, post) sz)"
  have cov: "(if covers ?new x then 1 else 0) + (if covers ?v' x then 1 else 0)
               = (if covers v x then (1::nat) else 0)" for x
    using u by (auto simp: cover_count_simps sum_sizes_simps covers_def)
  have cov0: "covers ?new x = covers v x" if "unat (size_b v) = unat sz" for x
    using that by (simp add: cover_count_simps sum_sizes_simps covers_def)
  have new_bound: "unat (offset_b ?new) + unat (size_b ?new) \<le> unat C"
    using u bound by (simp add: cover_count_simps sum_sizes_simps)
  have v'_bound: "unat (offset_b ?v') + unat (size_b ?v') \<le> unat C"
    using u bound by (simp add: cover_count_simps sum_sizes_simps)
  have init: "is_init_m ?m'" "size_m ?m' = size_m m"
    using inv by (simp_all add: cover_count_simps sum_sizes_simps pool_inv_def mm_allocate_impl_def Let_def)
  show ?thesis
  proof (cases "size_b v - sz = 0")
    case True
    then have eq: "unat (size_b v) = unat sz" using rem0 by (simp add: cover_count_simps sum_sizes_simps)
    have lists: "in_use_m ?m' = in_use_m m @ [?new]" "vacant_m ?m' = pre @ post"
      using True by (simp_all add: cover_count_simps sum_sizes_simps mm_allocate_impl_def Let_def)
    show ?thesis
    proof (rule pool_inv_rearrange [OF inv init])
      show "\<forall>b \<in> set (in_use_m ?m' @ vacant_m ?m').
              unat (offset_b b) + unat (size_b b) \<le> unat C"
        using bounds new_bound unfolding lists by (auto simp: cover_count_simps sum_sizes_simps)
      show "cover_count x (in_use_m ?m' @ vacant_m ?m')
              = cover_count x (in_use_m m @ vacant_m m)" for x
        unfolding lists vac using cov0 [OF eq, of x] by (simp add: cover_count_simps sum_sizes_simps)
      show "sum_sizes (in_use_m ?m') + sum_sizes (vacant_m ?m')
              = sum_sizes (in_use_m m) + sum_sizes (vacant_m m)"
        unfolding lists vac using eq by (simp add: cover_count_simps sum_sizes_simps)
    qed
  next
    case False
    have lists: "in_use_m ?m' = in_use_m m @ [?new]" "vacant_m ?m' = pre @ ?v' # post"
      using False by (simp_all add: cover_count_simps sum_sizes_simps mm_allocate_impl_def Let_def)
    show ?thesis
    proof (rule pool_inv_rearrange [OF inv init])
      show "\<forall>b \<in> set (in_use_m ?m' @ vacant_m ?m').
              unat (offset_b b) + unat (size_b b) \<le> unat C"
        using bounds new_bound v'_bound unfolding lists by (auto simp: cover_count_simps sum_sizes_simps)
      show "cover_count x (in_use_m ?m' @ vacant_m ?m')
              = cover_count x (in_use_m m @ vacant_m m)" for x
        unfolding lists vac using cov [of x] by (simp add: cover_count_simps sum_sizes_simps)
      show "sum_sizes (in_use_m ?m') + sum_sizes (vacant_m ?m')
              = sum_sizes (in_use_m m) + sum_sizes (vacant_m m)"
        unfolding lists vac using u by (simp add: cover_count_simps sum_sizes_simps)
    qed
  qed
qed

lemma pool_inv_free:
  assumes inv: "pool_inv C m"
  shows "pool_inv C (snd (mm_free m i))"
proof (cases "mm_lookup m i")
  case None
  with inv show ?thesis by (simp add: cover_count_simps sum_sizes_simps mm_free_def AbortIfNot_def)
next
  case (Some it)
  obtain pre b post where it: "it = (pre, b, post)" by (cases it)
  from Some it have iu: "in_use_m m = pre @ b # post"
    by (auto simp: cover_count_simps sum_sizes_simps mm_lookup_def dest: find_iter_Some)
  let ?b' = "\<lparr>id_b = - 1, offset_b = offset_b b, size_b = size_b b\<rparr>"
  let ?m' = "snd (mm_free m i)"
  from inv have init: "is_init_m m" by (simp add: cover_count_simps sum_sizes_simps pool_inv_def)
  have lists: "in_use_m ?m' = pre @ post" "vacant_m ?m' = vacant_m m @ [?b']"
    and fields: "is_init_m ?m'" "size_m ?m' = size_m m"
    using Some it init by (simp_all add: cover_count_simps sum_sizes_simps mm_free_def AbortIfNot_def)
  have cov: "covers ?b' x = covers b x" for x
    by (simp add: cover_count_simps sum_sizes_simps covers_def)
  from inv have bounds:
    "\<forall>b \<in> set (in_use_m m @ vacant_m m). unat (offset_b b) + unat (size_b b) \<le> unat C"
    by (simp add: cover_count_simps sum_sizes_simps pool_inv_def partitions_def)
  show ?thesis
  proof (rule pool_inv_rearrange [OF inv fields])
    show "\<forall>b \<in> set (in_use_m ?m' @ vacant_m ?m').
            unat (offset_b b) + unat (size_b b) \<le> unat C"
      using bounds unfolding lists iu by (auto simp: cover_count_simps sum_sizes_simps)
    show "cover_count x (in_use_m ?m' @ vacant_m ?m')
            = cover_count x (in_use_m m @ vacant_m m)" for x
      unfolding lists iu using cov [of x] by (simp add: cover_count_simps sum_sizes_simps)
    show "sum_sizes (in_use_m ?m') + sum_sizes (vacant_m ?m')
            = sum_sizes (in_use_m m) + sum_sizes (vacant_m m)"
      unfolding lists iu by (simp add: cover_count_simps sum_sizes_simps)
  qed
qed

lemma defrag_loop_layout:
  "defrag_loop a bs off h = (bs', off', h') \<Longrightarrow> unat off + sum_sizes bs < 2 ^ 64 \<Longrightarrow>
     unat off' = unat off + sum_sizes bs
     \<and> sum_sizes bs' = sum_sizes bs
     \<and> (\<forall>b \<in> set bs'. unat (offset_b b) + unat (size_b b) \<le> unat off')
     \<and> (\<forall>x. cover_count x bs' = (if unat off \<le> x \<and> x < unat off' then 1 else 0))"
proof (induction bs arbitrary: off h bs' off' h')
  case Nil
  then show ?case by (simp add: cover_count_simps sum_sizes_simps)
next
  case (Cons b bs)
  let ?h1 = "if off \<noteq> offset_b b
             then memcpy h (a + unat off) (bytes_at h (a + unat (offset_b b))) (unat (size_b b))
             else h"
  obtain bs1 off1 h2 where rec: "defrag_loop a bs (off + size_b b) ?h1 = (bs1, off1, h2)"
    by (cases "defrag_loop a bs (off + size_b b) ?h1") auto
  with Cons.prems(1) have res: "bs' = b\<lparr>offset_b := off\<rparr> # bs1" "off' = off1"
    by (simp_all add: cover_count_simps sum_sizes_simps Let_def)
  from Cons.prems(2) have "unat off + unat (size_b b) < 2 ^ 64"
    by (simp add: cover_count_simps sum_sizes_simps)
  then have step: "unat (off + size_b b) = unat off + unat (size_b b)"
    using unat_add_lem [of off "size_b b"] by (simp add: cover_count_simps sum_sizes_simps)
  with Cons.prems(2) have "unat (off + size_b b) + sum_sizes bs < 2 ^ 64"
    by (simp add: cover_count_simps sum_sizes_simps)
  from Cons.IH [OF rec this] step res show ?case
    by (auto simp: cover_count_simps sum_sizes_simps covers_def)
qed

lemma pool_inv_defrag:
  assumes inv: "pool_inv C m"
  shows "pool_inv C (fst (mm_defrag m h))"
proof -
  obtain bs off h1 where loop: "defrag_loop (addr_m m) (in_use_m m) 0 h = (bs, off, h1)"
    by (cases "defrag_loop (addr_m m) (in_use_m m) 0 h") auto
  from inv have sz: "size_m m = C" and init: "is_init_m m"
    and le: "sum_sizes (in_use_m m) \<le> unat C"
    by (simp_all add: cover_count_simps sum_sizes_simps pool_inv_def)
  have "unat (0 :: size_t) + sum_sizes (in_use_m m) < 2 ^ 64"
    using le unat_size_t_less [of C] by (simp add: cover_count_simps sum_sizes_simps)
  note lay = defrag_loop_layout [OF loop this]
  from lay le have off_le: "unat off \<le> unat C" by (simp add: cover_count_simps sum_sizes_simps)
  then have "off \<le> C" by (simp add: cover_count_simps sum_sizes_simps word_le_nat_alt)
  then have rest: "unat (C - off) = unat C - unat off" by (rule unat_sub)
  let ?v = "\<lparr>id_b = - 1, offset_b = off, size_b = C - off\<rparr>"
  have m': "fst (mm_defrag m h) = m\<lparr>in_use_m := bs, vacant_m := [?v]\<rparr>"
    using loop sz by (simp add: cover_count_simps sum_sizes_simps mm_defrag_def)
  have cov: "covers ?v x \<longleftrightarrow> unat off \<le> x \<and> x < unat C" for x
    using rest off_le by (auto simp: cover_count_simps sum_sizes_simps covers_def)
  show ?thesis
    unfolding m' pool_inv_def partitions_def
    using lay init sz off_le rest cov by (auto simp: cover_count_simps sum_sizes_simps covers_def)
qed

lemma pool_inv_allocate:
  assumes inv: "pool_inv C m"
  shows "pool_inv C (fst (snd (mm_allocate m h sz)))"
proof (cases "sz > size_m m \<or> sz = 0 \<or> vacant_m m = []")
  case True
  with inv show ?thesis
    by (auto simp: cover_count_simps sum_sizes_simps mm_allocate_def AbortIf_def AbortIfNot_def)
next
  case False
  from inv have init: "is_init_m m" by (simp add: cover_count_simps sum_sizes_simps pool_inv_def)
  show ?thesis
  proof (cases "find_iter (\<lambda>v. size_b v \<ge> sz) (vacant_m m)")
    case (Some it)
    obtain pre v post where it: "it = (pre, v, post)" by (cases it)
    from Some it have vac: "vacant_m m = pre @ v # post" and le: "sz \<le> size_b v"
      by (auto dest: find_iter_Some)
    have "fst (snd (mm_allocate m h sz)) = snd (mm_allocate_impl m (pre, v, post) sz)"
      using False init Some it
      by (simp add: cover_count_simps sum_sizes_simps mm_allocate_def AbortIf_def AbortIfNot_def split: prod.splits)
    with pool_inv_allocate_impl [OF inv vac le] show ?thesis by (simp add: cover_count_simps sum_sizes_simps)
  next
    case None
    obtain m1 h1 where d: "mm_defrag m h = (m1, h1)"
      by (cases "mm_defrag m h") auto
    have inv1: "pool_inv C m1"
      using pool_inv_defrag [OF inv, of h] d by (simp add: cover_count_simps sum_sizes_simps)
    obtain v where v: "vacant_m m1 = [v]"
      using mm_defrag_vacant [of m h] d by (auto simp: cover_count_simps sum_sizes_simps)
    show ?thesis
    proof (cases "size_b v \<ge> sz")
      case True
      have "fst (snd (mm_allocate m h sz)) = snd (mm_allocate_impl m1 ([], v, []) sz)"
        using False init None d v True
        by (simp add: cover_count_simps sum_sizes_simps mm_allocate_def AbortIf_def AbortIfNot_def split: prod.splits)
      moreover have "vacant_m m1 = [] @ v # []" using v by (simp add: cover_count_simps sum_sizes_simps)
      ultimately show ?thesis
        using pool_inv_allocate_impl [OF inv1 _ True, of "[]" "[]"] by (simp add: cover_count_simps sum_sizes_simps)
    next
      case nofit: False
      have "fst (snd (mm_allocate m h sz)) = m1"
        using False init None d v nofit
        by (simp add: cover_count_simps sum_sizes_simps mm_allocate_def AbortIf_def AbortIfNot_def split: prod.splits)
      with inv1 show ?thesis by (simp add: cover_count_simps sum_sizes_simps)
    qed
  qed
qed

lemma pool_inv_step:
  assumes "pool_inv C m"
  shows "pool_inv C (fst (mm_step op (m, h)))"
proof (cases op)
  case (Init a sz)
  with assms show ?thesis
    by (simp add: cover_count_simps sum_sizes_simps mm_init_def AbortIf_def pool_inv_def)
next
  case (Allocate sz)
  with pool_inv_allocate [OF assms] show ?thesis by (simp add: cover_count_simps sum_sizes_simps)
next
  case (Free i)
  with pool_inv_free [OF assms] show ?thesis by (simp add: cover_count_simps sum_sizes_simps)
next
  case Defrag
  with pool_inv_defrag [OF assms] show ?thesis by (simp add: cover_count_simps sum_sizes_simps)
next
  case (Read i buf n)
  with assms show ?thesis by (simp add: cover_count_simps sum_sizes_simps)
next
  case (Write i buf n)
  with assms show ?thesis by (simp add: cover_count_simps sum_sizes_simps)
qed

lemma pool_inv_run:
  "pool_inv C m \<Longrightarrow> pool_inv C (fst (mm_run ops (m, h)))"
proof (induction ops arbitrary: m h)
  case Nil
  then show ?case by (simp add: cover_count_simps sum_sizes_simps)
next
  case (Cons op ops)
  from pool_inv_step [OF Cons.prems, of op h]
  have "pool_inv C (fst (mm_run ops (fst (mm_step op (m, h)), snd (mm_step op (m, h)))))"
    by (rule Cons.IH)
  then show ?case by (simp add: cover_count_simps sum_sizes_simps)
qed

lemma pool_inv_fresh: "pool_inv C (fresh_pool a C)"
  by (auto simp: cover_count_simps sum_sizes_simps pool_inv_def partitions_def fresh_pool_def covers_def)

lemma mm_init_new_success:
  "mm_init MemoryManager_new a C = (True, m0) \<Longrightarrow> m0 = fresh_pool a C"
  by (auto simp: cover_count_simps sum_sizes_simps mm_init_def MemoryManager_new_def fresh_pool_def AbortIf_def split: if_splits)

text \<open>
  C1. After a successful \<open>init\<close> of a new manager with capacity \<open>C\<close>, whatever sequence
  of \<open>init\<close>, \<open>allocate\<close>, \<open>free\<close>, \<open>defrag\<close>, \<open>read\<close> and \<open>write\<close> calls follows: the blocks
  of \<open>in_use\<close> and \<open>vacant\<close> together partition the bytes \<open>[0, C)\<close> (every block lies
  inside the range and every byte of the range is in exactly one block), and the sizes of
  the blocks in use and of the vacant blocks add up to \<open>C\<close>.
\<close>

theorem pool_partition_invariant:
  assumes "mm_init MemoryManager_new a C = (True, m0)"
    and "mm_run ops (m0, h0) = (m, h)"
  shows "partitions (unat C) (in_use_m m @ vacant_m m)
         \<and> sum_sizes (in_use_m m) + sum_sizes (vacant_m m) = unat C"
proof -
  have "pool_inv C m0"
    using mm_init_new_success [OF assms(1)] pool_inv_fresh by (simp add: cover_count_simps sum_sizes_simps)
  from pool_inv_run [OF this, of ops h0] assms(2) show ?thesis
    by (simp add: cover_count_simps sum_sizes_simps pool_inv_def)
qed

theorem pool_partition_invariant_witness:
  "mm_init MemoryManager_new 4096 4 = (True, fresh_pool 4096 4)
   \<and> mm_run [Allocate 2, Allocate 2, Free 0, Allocate 2] (fresh_pool 4096 4, zero_heap)
       = (crossed_pool, zero_heap)
   \<and> partitions 4 (in_use_m crossed_pool @ vacant_m crossed_pool)
   \<and> sum_sizes (in_use_m crossed_pool) + sum_sizes (vacant_m crossed_pool) = 4"
proof -
  have i: "mm_init MemoryManager_new 4096 4 = (True, fresh_pool 4096 4)"
    by (simp add: cover_count_simps sum_sizes_simps mm_init_new)
  have r: "mm_run [Allocate 2, Allocate 2, Free 0, Allocate 2] (fresh_pool 4096 4, zero_heap)
       = (crossed_pool, zero_heap)"
    by (simp add: cover_count_simps sum_sizes_simps crossed_pool_eq mm_allocate_def mm_allocate_impl_def mm_free_def mm_lookup_def
      mm_defrag_def fresh_pool_def AbortIf_def AbortIfNot_def Let_def)
  from pool_partition_invariant [OF i r] i r show ?thesis by (simp add: cover_count_simps sum_sizes_simps)
qed

section \<open>Defragmentation\<close>

lemma length_cursors: "length (cursors off bs) = length bs"
  by (induction bs arbitrary: off) simp_all

lemma defrag_loop_relocate:
  "defrag_loop a bs off h =
     (map2 (\<lambda>b c. b\<lparr>offset_b := c\<rparr>) bs (cursors off bs),
      off + sum_list (map size_b bs),
      foldl (relocate a) h (zip bs (cursors off bs)))"
proof (induction bs arbitrary: off h)
  case Nil
  show ?case by (simp add: cover_count_simps sum_sizes_simps)
next
  case (Cons b bs)
  show ?case
    by (simp add: cover_count_simps sum_sizes_simps Cons.IH Let_def relocate_def add.assoc eq_commute [of off])
qed

lemma cursors_unat:
  "unat off + sum_sizes bs < 2 ^ 64 \<Longrightarrow> k < length bs \<Longrightarrow>
     unat (cursors off bs ! k) = unat off + sum_sizes (take k bs)"
proof (induction bs arbitrary: off k)
  case Nil
  then show ?case by (simp add: cover_count_simps sum_sizes_simps)
next
  case (Cons b bs)
  show ?case
  proof (cases k)
    case 0
    then show ?thesis by (simp add: cover_count_simps sum_sizes_simps)
  next
    case (Suc j)
    from Cons.prems(1) have "unat off + unat (size_b b) < 2 ^ 64"
      by (simp add: cover_count_simps sum_sizes_simps)
    then have step: "unat (off + size_b b) = unat off + unat (size_b b)"
      using unat_add_lem [of off "size_b b"] by (simp add: cover_count_simps sum_sizes_simps)
    with Cons.prems(1) have "unat (off + size_b b) + sum_sizes bs < 2 ^ 64"
      by (simp add: cover_count_simps sum_sizes_simps)
    moreover from Cons.prems(2) Suc have "j < length bs" by (simp add: cover_count_simps sum_sizes_simps)
    ultimately have "unat (cursors (off + size_b b) bs ! j)
        = unat (off + size_b b) + sum_sizes (take j bs)"
      by (rule Cons.IH)
    with Suc step show ?thesis by (simp add: cover_count_simps sum_sizes_simps)
  qed
qed

lemma map2_offset_id:
  "length cs = length bs \<Longrightarrow>
     map id_b (map2 (\<lambda>b c. b\<lparr>offset_b := c\<rparr>) bs cs) = map id_b bs
     \<and> map size_b (map2 (\<lambda>b c. b\<lparr>offset_b := c\<rparr>) bs cs) = map size_b bs"
  by (induction bs cs rule: list_induct2') simp_all

text \<open>
  The bookkeeping of \<open>defrag\<close>. In every state of a pool that was initialised with
  capacity \<open>C\<close>, \<open>defrag\<close> leaves exactly one vacant block: it has the sentinel id, starts
  at the sum of the sizes of the blocks in use and its size is \<open>C\<close> minus that sum, so
  that it covers exactly the bytes from the final cursor up to the capacity. The blocks
  in use keep their order, ids and sizes; only their offsets change: the offset of each
  block becomes the cursor of its turn, which starts at 0 and is the sum of the sizes of
  the blocks before it. Nothing else of the manager changes.
\<close>

lemma defrag_bookkeeping:
  assumes "mm_init MemoryManager_new a C = (True, m0)"
    and "mm_run ops (m0, h0) = (m, h)"
  shows "let m' = fst (mm_defrag m h); cs = cursors 0 (in_use_m m)
         in map id_b (vacant_m m') = [- 1]
            \<and> map (\<lambda>v. unat (offset_b v)) (vacant_m m') = [sum_sizes (in_use_m m)]
            \<and> map (\<lambda>v. unat (size_b v)) (vacant_m m') = [unat C - sum_sizes (in_use_m m)]
            \<and> sum_sizes (in_use_m m) \<le> unat C
            \<and> (\<forall>x. cover_count x (vacant_m m')
                   = (if sum_sizes (in_use_m m) \<le> x \<and> x < unat C then 1 else 0))
            \<and> map id_b (in_use_m m') = map id_b (in_use_m m)
            \<and> map size_b (in_use_m m') = map size_b (in_use_m m)
            \<and> in_use_m m' = map2 (\<lambda>b c. b\<lparr>offset_b := c\<rparr>) (in_use_m m) cs
            \<and> (\<forall>k < length (in_use_m m). unat (cs ! k) = sum_sizes (take k (in_use_m m)))
            \<and> addr_m m' = addr_m m \<and> is_init_m m' = is_init_m m
            \<and> last_index_m m' = last_index_m m \<and> size_m m' = size_m m"
proof -
  have "pool_inv C m0"
    using mm_init_new_success [OF assms(1)] pool_inv_fresh by (simp add: cover_count_simps sum_sizes_simps)
  from pool_inv_run [OF this, of ops h0] assms(2) have inv: "pool_inv C m"
    by (simp add: cover_count_simps sum_sizes_simps)
  then have sz: "size_m m = C" and le: "sum_sizes (in_use_m m) \<le> unat C"
    by (simp_all add: cover_count_simps sum_sizes_simps pool_inv_def)
  have small: "unat (0 :: size_t) + sum_sizes (in_use_m m) < 2 ^ 64"
    using le unat_size_t_less [of C] by (simp add: cover_count_simps sum_sizes_simps)
  let ?cs = "cursors 0 (in_use_m m)"
  let ?off = "0 + sum_list (map size_b (in_use_m m))"
  have loop: "defrag_loop (addr_m m) (in_use_m m) 0 h =
     (map2 (\<lambda>b c. b\<lparr>offset_b := c\<rparr>) (in_use_m m) ?cs, ?off,
      foldl (relocate (addr_m m)) h (zip (in_use_m m) ?cs))"
    by (rule defrag_loop_relocate)
  from defrag_loop_layout [OF loop small] have off: "unat ?off = sum_sizes (in_use_m m)"
    by (simp add: cover_count_simps sum_sizes_simps)
  then have "?off \<le> C" using le by (simp add: cover_count_simps sum_sizes_simps word_le_nat_alt)
  then have rest: "unat (C - ?off) = unat C - sum_sizes (in_use_m m)"
    using off by (simp add: cover_count_simps sum_sizes_simps unat_sub)
  have cur: "\<forall>k < length (in_use_m m). unat (?cs ! k) = sum_sizes (take k (in_use_m m))"
    using cursors_unat [OF small] by (simp add: cover_count_simps sum_sizes_simps)
  have ids: "map id_b (map2 (\<lambda>b c. b\<lparr>offset_b := c\<rparr>) (in_use_m m) ?cs) = map id_b (in_use_m m)"
    and sizes: "map size_b (map2 (\<lambda>b c. b\<lparr>offset_b := c\<rparr>) (in_use_m m) ?cs)
                  = map size_b (in_use_m m)"
    using map2_offset_id [OF length_cursors [of 0 "in_use_m m"]] by simp_all
  have cov: "cover_count x [\<lparr>id_b = - 1, offset_b = ?off, size_b = C - ?off\<rparr>]
      = (if sum_sizes (in_use_m m) \<le> x \<and> x < unat C then 1 else 0)" for x
    using off rest le by (auto simp: cover_count_simps sum_sizes_simps covers_def)
  show ?thesis
    unfolding Let_def mm_defrag_def loop
    using off rest le cur ids sizes cov sz by (simp add: cover_count_simps sum_sizes_simps)
qed

subsection \<open>The bytes of the relocated blocks\<close>

lemma letters_pool_eq:
  "letters_pool =
     (\<lparr>addr_m = 4096,
       in_use_m = [\<lparr>id_b = 1, offset_b = 2, size_b = 2\<rparr>, \<lparr>id_b = 2, offset_b = 0, size_b = 1\<rparr>],
       is_init_m = True, last_index_m = 3, size_m = 4,
       vacant_m = [\<lparr>id_b = - 1, offset_b = 1, size_b = 1\<rparr>]\<rparr>,
      memcpy (memcpy zero_heap 4098 buf_AB 2) 4096 buf_Z 1)"
  by (simp add: letters_pool_def mm_allocate_def mm_allocate_impl_def mm_free_def mm_lookup_def
      mm_write_def fresh_pool_def AbortIf_def AbortIfNot_def Let_def)

lemma letters_defragged_eq:
  "fst letters_defragged =
     \<lparr>addr_m = 4096,
       in_use_m = [\<lparr>id_b = 1, offset_b = 0, size_b = 2\<rparr>, \<lparr>id_b = 2, offset_b = 2, size_b = 1\<rparr>],
       is_init_m = True, last_index_m = 3, size_m = 4,
       vacant_m = [\<lparr>id_b = - 1, offset_b = 3, size_b = 1\<rparr>]\<rparr>"
  by (simp add: letters_defragged_def letters_pool_eq mm_defrag_def Let_def)

lemma upt_small: "[0..<2] = [0, 1]" "[0..<1] = [0]"
  by (simp_all add: upt_rec)

text \<open>
  C6. The claim holds of the bookkeeping and fails of the bytes: \<open>defrag\<close> does not
  relocate every block in use with its bytes. After \<open>init\<close> with capacity 4,
  \<^verbatim>\<open>allocate(2)\<close>, \<^verbatim>\<open>allocate(2)\<close>, \<^verbatim>\<open>free(0)\<close>, \<^verbatim>\<open>allocate(1)\<close>, \<^verbatim>\<open>write(1, "AB", 2)\<close> and
  \<^verbatim>\<open>write(2, "Z", 1)\<close>, the block with id 1 holds \<^verbatim>\<open>AB\<close> at offset 2 and comes first in
  \<open>in_use\<close>, the block with id 2 holds \<^verbatim>\<open>Z\<close> at offset 0, and \<open>read(2)\<close> gives \<^verbatim>\<open>Z\<close> (90).
  \<^verbatim>\<open>allocate(2)\<close> finds no vacancy of two bytes, defragments and fails with \<open>-1\<close>. The
  blocks then have the offsets 0 and 2 and the single vacancy is the last byte, as
  claimed; but the copies are made in list order, so the first one writes \<^verbatim>\<open>AB\<close> over the
  byte of block 2 before its turn, and what is copied for block 2 is \<^verbatim>\<open>A\<close>: its bytes have
  changed from \<^verbatim>\<open>Z\<close> to \<^verbatim>\<open>A\<close>, and \<open>read(2)\<close> gives \<^verbatim>\<open>A\<close> (65). No two ranges of a copy
  overlap here.
\<close>

theorem defrag_loses_block_contents:
  "mm_init MemoryManager_new 4096 4 = (True, fresh_pool 4096 4)
   \<and> in_use_m (fst letters_pool)
       = [\<lparr>id_b = 1, offset_b = 2, size_b = 2\<rparr>, \<lparr>id_b = 2, offset_b = 0, size_b = 1\<rparr>]
   \<and> map (block_bytes (fst letters_pool) (snd letters_pool)) (in_use_m (fst letters_pool))
       = [[65, 66], [90]]
   \<and> fst (mm_read (fst letters_pool) (snd letters_pool) 2 zero_heap 1)
   \<and> snd (mm_read (fst letters_pool) (snd letters_pool) 2 zero_heap 1) 0 = 90
   \<and> mm_allocate (fst letters_pool) (snd letters_pool) 2
       = (- 1, fst letters_defragged, snd letters_defragged)
   \<and> in_use_m (fst letters_defragged)
       = [\<lparr>id_b = 1, offset_b = 0, size_b = 2\<rparr>, \<lparr>id_b = 2, offset_b = 2, size_b = 1\<rparr>]
   \<and> vacant_m (fst letters_defragged) = [\<lparr>id_b = - 1, offset_b = 3, size_b = 1\<rparr>]
   \<and> map (block_bytes (fst letters_defragged) (snd letters_defragged))
         (in_use_m (fst letters_defragged))
       = [[65, 66], [65]]
   \<and> fst (mm_read (fst letters_defragged) (snd letters_defragged) 2 zero_heap 1)
   \<and> snd (mm_read (fst letters_defragged) (snd letters_defragged) 2 zero_heap 1) 0 = 65"
proof -
  have i: "mm_init MemoryManager_new 4096 4 = (True, fresh_pool 4096 4)"
    by (simp add: mm_init_new)
  have before: "map (block_bytes (fst letters_pool) (snd letters_pool)) (in_use_m (fst letters_pool))
       = [[65, 66], [90]]"
    by (simp add: letters_pool_eq block_bytes_def memcpy_def buf_AB_def buf_Z_def zero_heap_def
        upt_small)
  have rd: "mm_read (fst letters_pool) (snd letters_pool) 2 zero_heap 1
      = (True, memcpy zero_heap 0 (bytes_at (snd letters_pool) 4096) 1)"
    by (simp add: letters_pool_eq mm_read_def mm_lookup_def AbortIf_def AbortIfNot_def)
  have rd0: "memcpy zero_heap 0 (bytes_at (snd letters_pool) 4096) 1 0 = 90"
    by (simp add: letters_pool_eq memcpy_def bytes_at_def buf_Z_def)
  have al: "mm_allocate (fst letters_pool) (snd letters_pool) 2
       = (- 1, fst letters_defragged, snd letters_defragged)"
    unfolding letters_defragged_def
    by (simp add: letters_pool_eq mm_allocate_def mm_defrag_def AbortIf_def AbortIfNot_def
        Let_def word_le_nat_alt)
  have h': "snd letters_defragged
      = memcpy (memcpy (snd letters_pool) 4096 (bytes_at (snd letters_pool) 4098) 2) 4098
          (bytes_at (memcpy (snd letters_pool) 4096 (bytes_at (snd letters_pool) 4098) 2) 4096) 1"
    by (simp add: letters_defragged_def letters_pool_eq mm_defrag_def Let_def)
  have after: "map (block_bytes (fst letters_defragged) (snd letters_defragged))
         (in_use_m (fst letters_defragged)) = [[65, 66], [65]]"
    unfolding h'
    by (simp add: letters_defragged_eq letters_pool_eq block_bytes_def memcpy_def bytes_at_def
        buf_AB_def buf_Z_def zero_heap_def upt_small)
  have rd': "mm_read (fst letters_defragged) (snd letters_defragged) 2 zero_heap 1
      = (True, memcpy zero_heap 0 (bytes_at (snd letters_defragged) 4098) 1)"
    by (simp add: letters_defragged_eq mm_read_def mm_lookup_def AbortIf_def AbortIfNot_def)
  have rd0': "memcpy zero_heap 0 (bytes_at (snd letters_defragged) 4098) 1 0 = 65"
    unfolding h'
    by (simp add: letters_pool_eq memcpy_def bytes_at_def buf_AB_def buf_Z_def zero_heap_def)
  from i before rd rd0 al after rd' rd0' show ?thesis
    by (simp add: letters_pool_eq letters_defragged_eq)
qed

section \<open>Ids of the blocks in use\<close>

lemma find_iter_last:
  "\<forall>x \<in> set xs. \<not> P x \<Longrightarrow> P y \<Longrightarrow> find_iter P (xs @ [y]) = Some (xs, y, [])"
  by (induction xs) simp_all

lemma ids_below_allocate_impl:
  assumes "ids_below m"
  shows "ids_below (snd (mm_allocate_impl m (pre, v, post) sz))"
  using assms by (fastforce simp: ids_below_def mm_allocate_impl_def Let_def)

lemma ids_below_free:
  assumes "ids_below m"
  shows "ids_below (snd (mm_free m i))"
proof (cases "mm_lookup m i")
  case None
  with assms show ?thesis by (simp add: mm_free_def AbortIfNot_def)
next
  case (Some it)
  obtain pre b post where it: "it = (pre, b, post)" by (cases it)
  from Some it have "in_use_m m = pre @ b # post"
    by (auto simp: mm_lookup_def dest: find_iter_Some)
  with assms Some it show ?thesis
    by (auto simp: ids_below_def mm_free_def AbortIfNot_def)
qed

lemma mm_defrag_ids:
  "map id_b (in_use_m (fst (mm_defrag m h))) = map id_b (in_use_m m)
   \<and> last_index_m (fst (mm_defrag m h)) = last_index_m m
   \<and> is_init_m (fst (mm_defrag m h)) = is_init_m m"
  using map2_offset_id [OF length_cursors [of 0 "in_use_m m"]]
  by (simp add: mm_defrag_def defrag_loop_relocate)

lemma ids_below_defrag:
  "ids_below m \<Longrightarrow> ids_below (fst (mm_defrag m h))"
  using mm_defrag_ids [of m h] by (simp add: ids_below_def)

text \<open>
  What a call of \<open>allocate\<close> does: it fails with \<open>-1\<close> and leaves the blocks in use with
  their ids, or it appends a block of the requested size under the id of the counter.
\<close>

lemma mm_allocate_cases:
  obtains (fail) "fst (mm_allocate m h sz) = - 1"
      "map id_b (in_use_m (fst (snd (mm_allocate m h sz)))) = map id_b (in_use_m m)"
      "last_index_m (fst (snd (mm_allocate m h sz))) = last_index_m m"
  | (ok) bs off where "fst (mm_allocate m h sz) = last_index_m m"
      "is_init_m (fst (snd (mm_allocate m h sz)))"
      "map id_b bs = map id_b (in_use_m m)"
      "in_use_m (fst (snd (mm_allocate m h sz)))
         = bs @ [\<lparr>id_b = last_index_m m, offset_b = off, size_b = sz\<rparr>]"
      "last_index_m (fst (snd (mm_allocate m h sz))) = last_index_m m + 1"
proof (cases "\<not> is_init_m m \<or> sz > size_m m \<or> sz = 0 \<or> vacant_m m = []")
  case True
  then have "mm_allocate m h sz = (- 1, m, h)"
    by (auto simp: mm_allocate_def AbortIf_def AbortIfNot_def)
  then show ?thesis using fail by simp
next
  case False
  show ?thesis
  proof (cases "find_iter (\<lambda>v. size_b v \<ge> sz) (vacant_m m)")
    case (Some it)
    obtain pre v post where it: "it = (pre, v, post)" by (cases it)
    have "mm_allocate m h sz
            = (fst (mm_allocate_impl m (pre, v, post) sz),
               snd (mm_allocate_impl m (pre, v, post) sz), h)"
      using False Some it
      by (simp add: mm_allocate_def AbortIf_def AbortIfNot_def split: prod.splits)
    then show ?thesis
      using False ok [of "in_use_m m" "offset_b v"]
      by (simp add: mm_allocate_impl_def Let_def)
  next
    case None
    obtain m1 h1 where d: "mm_defrag m h = (m1, h1)"
      by (cases "mm_defrag m h") auto
    from mm_defrag_ids [of m h] d
    have ids: "map id_b (in_use_m m1) = map id_b (in_use_m m)"
      and last: "last_index_m m1 = last_index_m m" and init: "is_init_m m1 = is_init_m m"
      by simp_all
    obtain v where v: "vacant_m m1 = [v]"
      using mm_defrag_vacant [of m h] d by auto
    show ?thesis
    proof (cases "size_b v \<ge> sz")
      case True
      have "mm_allocate m h sz
              = (fst (mm_allocate_impl m1 ([], v, []) sz),
                 snd (mm_allocate_impl m1 ([], v, []) sz), h1)"
        using False None d v True
        by (simp add: mm_allocate_def AbortIf_def AbortIfNot_def split: prod.splits)
      then show ?thesis
        using False ids last init ok [of "in_use_m m1" "offset_b v"]
        by (simp add: mm_allocate_impl_def Let_def)
    next
      case nofit: False
      have "mm_allocate m h sz = (- 1, m1, h1)"
        using False None d v nofit
        by (simp add: mm_allocate_def AbortIf_def AbortIfNot_def split: prod.splits)
      then show ?thesis using fail ids last by simp
    qed
  qed
qed

lemma ids_below_allocate:
  assumes "ids_below m"
  shows "ids_below (fst (snd (mm_allocate m h sz)))"
proof (cases rule: mm_allocate_cases [of m h sz])
  case fail
  with assms show ?thesis by (simp add: ids_below_def)
next
  case (ok bs off)
  from assms ok(3) have "\<forall>i \<in> set (map id_b bs). i < last_index_m m"
    by (simp add: ids_below_def)
  then show ?thesis
    unfolding ids_below_def ok(4,5) by fastforce
qed

lemma ids_below_step:
  assumes "ids_below m"
  shows "ids_below (fst (mm_step op (m, h)))"
proof (cases op)
  case (Init a sz)
  with assms show ?thesis
    by (auto simp: mm_init_def AbortIf_def ids_below_def)
next
  case (Allocate sz)
  with ids_below_allocate [OF assms] show ?thesis by simp
next
  case (Free i)
  with ids_below_free [OF assms] show ?thesis by simp
next
  case Defrag
  with ids_below_defrag [OF assms] show ?thesis by simp
next
  case (Read i buf n)
  with assms show ?thesis by simp
next
  case (Write i buf n)
  with assms show ?thesis by simp
qed

lemma ids_below_run:
  "ids_below m \<Longrightarrow> ids_below (fst (mm_run ops (m, h)))"
proof (induction ops arbitrary: m h)
  case Nil
  then show ?case by simp
next
  case (Cons op ops)
  from ids_below_step [OF Cons.prems, of op h]
  have "ids_below (fst (mm_run ops (fst (mm_step op (m, h)), snd (mm_step op (m, h)))))"
    by (rule Cons.IH)
  then show ?case by simp
qed

lemma allocated_block_found:
  assumes below: "ids_below m" and ok: "fst (mm_allocate m h sz) \<noteq> - 1"
  shows "\<exists>pre off. mm_lookup (fst (snd (mm_allocate m h sz))) (fst (mm_allocate m h sz))
           = Some (pre, \<lparr>id_b = fst (mm_allocate m h sz), offset_b = off, size_b = sz\<rparr>, [])
         \<and> is_init_m (fst (snd (mm_allocate m h sz)))"
proof (cases rule: mm_allocate_cases [of m h sz])
  case fail
  with ok show ?thesis by simp
next
  case (ok bs off)
  from below ok(3) have "\<forall>i \<in> set (map id_b bs). i < last_index_m m"
    by (simp add: ids_below_def)
  then have "\<forall>b \<in> set bs. id_b b \<noteq> last_index_m m"
    by auto
  then have "find_iter (\<lambda>b. id_b b = last_index_m m)
               (bs @ [\<lparr>id_b = last_index_m m, offset_b = off, size_b = sz\<rparr>])
             = Some (bs, \<lparr>id_b = last_index_m m, offset_b = off, size_b = sz\<rparr>, [])"
    by (intro find_iter_last) simp_all
  with ok show ?thesis
    by (simp add: mm_lookup_def)
qed

lemma allocated_block_writable:
  assumes "ids_below m" and "fst (mm_allocate m h sz) \<noteq> - 1" and "n \<le> sz"
  shows "fst (mm_write (fst (snd (mm_allocate m h sz))) h' (fst (mm_allocate m h sz)) bytes n)"
proof -
  from allocated_block_found [OF assms(1,2)] obtain pre off where
    "mm_lookup (fst (snd (mm_allocate m h sz))) (fst (mm_allocate m h sz))
       = Some (pre, \<lparr>id_b = fst (mm_allocate m h sz), offset_b = off, size_b = sz\<rparr>, [])"
    and "is_init_m (fst (snd (mm_allocate m h sz)))"
    by blast
  with assms(3) show ?thesis
    by (simp add: mm_write_def AbortIf_def AbortIfNot_def)
qed

lemma mm_write_read:
  assumes "fst (mm_write m h i bytes n)"
  shows "fst (mm_read m (snd (mm_write m h i bytes n)) i buf n)
         \<and> (\<forall>k < unat n. snd (mm_read m (snd (mm_write m h i bytes n)) i buf n) k = bytes k)
         \<and> (\<forall>k \<ge> unat n. snd (mm_read m (snd (mm_write m h i bytes n)) i buf n) k = buf k)"
  using assms
  by (auto simp: mm_read_def mm_write_def AbortIf_def AbortIfNot_def memcpy_def bytes_at_def
      Let_def split: option.splits if_splits)

text \<open>
  C5. When \<open>write(id, bytes, n)\<close> succeeds, a following \<open>read(id, buffer, n)\<close> succeeds
  and the first \<open>n\<close> bytes of the buffer are exactly the \<open>n\<close> bytes that were written;
  the rest of the buffer is as before. And the write does succeed for every id obtained
  from a successful \<open>allocate\<close> and every length up to the allocated size: in any state
  reached from a successful \<open>init\<close>, when \<open>allocate(size)\<close> returns an id other than
  \<open>-1\<close>, a \<open>write\<close> of \<open>n \<le> size\<close> bytes under that id succeeds, whatever the memory
  holds.
\<close>

theorem write_read_round_trip:
  "(fst (mm_write m h i bytes n) \<longrightarrow>
      fst (mm_read m (snd (mm_write m h i bytes n)) i buf n)
      \<and> (\<forall>k < unat n. snd (mm_read m (snd (mm_write m h i bytes n)) i buf n) k = bytes k)
      \<and> (\<forall>k \<ge> unat n. snd (mm_read m (snd (mm_write m h i bytes n)) i buf n) k = buf k))
   \<and> (mm_init MemoryManager_new a C = (True, m0) \<and> mm_run ops (m0, h0) = (m, h)
      \<and> fst (mm_allocate m h sz) \<noteq> - 1 \<and> n \<le> sz \<longrightarrow>
      fst (mm_write (fst (snd (mm_allocate m h sz))) h' (fst (mm_allocate m h sz)) bytes n))"
proof (rule conjI; rule impI)
  assume "fst (mm_write m h i bytes n)"
  then show "fst (mm_read m (snd (mm_write m h i bytes n)) i buf n)
      \<and> (\<forall>k < unat n. snd (mm_read m (snd (mm_write m h i bytes n)) i buf n) k = bytes k)
      \<and> (\<forall>k \<ge> unat n. snd (mm_read m (snd (mm_write m h i bytes n)) i buf n) k = buf k)"
    by (rule mm_write_read)
next
  assume a: "mm_init MemoryManager_new a C = (True, m0) \<and> mm_run ops (m0, h0) = (m, h)
      \<and> fst (mm_allocate m h sz) \<noteq> - 1 \<and> n \<le> sz"
  then have "m0 = fresh_pool a C" by (simp add: mm_init_new_success)
  then have "ids_below m0" by (simp add: ids_below_def fresh_pool_def)
  from ids_below_run [OF this, of ops h0] a have "ids_below m" by simp
  with a show "fst (mm_write (fst (snd (mm_allocate m h sz))) h' (fst (mm_allocate m h sz)) bytes n)"
    by (simp add: allocated_block_writable)
qed

theorem write_read_round_trip_witness:
  "mm_init MemoryManager_new 4096 10 = (True, fresh_pool 4096 10)
   \<and> mm_run [] (fresh_pool 4096 10, zero_heap) = (fresh_pool 4096 10, zero_heap)
   \<and> fst (mm_allocate (fresh_pool 4096 10) zero_heap 10) = 0
   \<and> (5 :: size_t) \<le> 10
   \<and> fst (mm_write (fst (snd (mm_allocate (fresh_pool 4096 10) zero_heap 10))) zero_heap 0
          hello 5)
   \<and> map (snd (mm_read (fst (snd (mm_allocate (fresh_pool 4096 10) zero_heap 10)))
               (snd (mm_write (fst (snd (mm_allocate (fresh_pool 4096 10) zero_heap 10)))
                       zero_heap 0 hello 5))
               0 zero_heap 5)) [0, 1, 2, 3, 4, 5]
      = [104, 101, 108, 108, 111, 0]"
proof -
  let ?m1 = "fst (snd (mm_allocate (fresh_pool 4096 10) zero_heap 10))"
  have i: "mm_init MemoryManager_new 4096 10 = (True, fresh_pool 4096 10)"
    by (simp add: mm_init_new)
  have r: "mm_run [] (fresh_pool 4096 10, zero_heap) = (fresh_pool 4096 10, zero_heap)"
    by simp
  have al: "fst (mm_allocate (fresh_pool 4096 10) zero_heap 10) = 0"
    by (simp add: mm_allocate_def mm_allocate_impl_def fresh_pool_def AbortIf_def
        AbortIfNot_def)
  have le: "(5 :: size_t) \<le> 10" by simp
  from write_read_round_trip [where a = 4096 and C = 10 and ?m0.0 = "fresh_pool 4096 10"
      and ops = "[]" and ?h0.0 = zero_heap and m = "fresh_pool 4096 10" and h = zero_heap
      and sz = 10 and n = 5 and h' = zero_heap and bytes = hello] i r al le
  have w: "fst (mm_write ?m1 zero_heap 0 hello 5)"
    by simp
  from write_read_round_trip [where m = ?m1 and h = zero_heap and i = 0 and bytes = hello
      and n = 5 and buf = zero_heap] w
  have "\<forall>k < 5. snd (mm_read ?m1 (snd (mm_write ?m1 zero_heap 0 hello 5)) 0 zero_heap 5) k
          = hello k"
    and "\<forall>k \<ge> 5. snd (mm_read ?m1 (snd (mm_write ?m1 zero_heap 0 hello 5)) 0 zero_heap 5) k
          = zero_heap k"
    by simp_all
  then have "map (snd (mm_read ?m1 (snd (mm_write ?m1 zero_heap 0 hello 5)) 0 zero_heap 5))
       [0, 1, 2, 3, 4, 5] = [104, 101, 108, 108, 111, 0]"
    by (simp add: hello_def zero_heap_def)
  with i r al le w show ?thesis by simp
qed

section \<open>The owner is created at most once\<close>

lemma mm_allocate_is_init:
  "is_init_m (fst (snd (mm_allocate m h sz))) = is_init_m m"
  by (auto simp: mm_allocate_def mm_allocate_impl_def mm_defrag_def AbortIf_def AbortIfNot_def
      Let_def split: option.splits prod.splits list.splits)

lemma mm_init_is_init:
  "is_init_m m \<Longrightarrow> mm_init m a sz = (False, m)"
  by (simp add: mm_init_def AbortIf_def)

lemma mm_init_success_is_init:
  "mm_init m a sz = (True, m1) \<Longrightarrow> is_init_m m1"
  by (auto simp: mm_init_def AbortIf_def split: if_splits)

lemma mm_allocate_is_init_dest:
  "mm_allocate m h sz = (i, m1, h1) \<Longrightarrow> is_init_m m1 = is_init_m m"
  using mm_allocate_is_init [of m h sz] by simp

lemma rm_init_manager:
  "manager_r (snd (rm_init r access name sz)) = manager_r r"
  by (simp add: rm_init_def AbortIf_def AbortIfNot_def Let_def)

lemma rm_create_manager_init:
  assumes "is_init_m (manager_r r)"
  shows "\<not> fst (rm_create r sys h name access sz)"
    and "is_init_m (manager_r (fst (snd (rm_create r sys h name access sz))))"
proof -
  obtain ok r1 where i: "rm_init r access name sz = (ok, r1)"
    by (cases "rm_init r access name sz") auto
  with rm_init_manager [of r access name sz] have m1: "manager_r r1 = manager_r r"
    by simp
  show "\<not> fst (rm_create r sys h name access sz)"
    using assms i m1
    by (simp add: rm_create_def AbortIf_def AbortIfNot_def Let_def mm_init_is_init)
  show "is_init_m (manager_r (fst (snd (rm_create r sys h name access sz))))"
    using assms i m1
    by (simp add: rm_create_def AbortIf_def AbortIfNot_def Let_def mm_init_is_init)
qed

lemma rm_create_success:
  assumes "fst (rm_create r sys h name access sz)"
  shows "is_init_m (manager_r (fst (snd (rm_create r sys h name access sz))))"
    and "is_init_r (fst (snd (rm_create r sys h name access sz)))"
  using assms
  by (auto simp: rm_create_def AbortIf_def AbortIfNot_def Let_def
      split: prod.splits if_splits
      dest: mm_init_success_is_init mm_allocate_is_init_dest)

lemma rm_destroy_manager:
  "manager_r (snd (rm_destroy r sys)) = manager_r r"
  by (simp add: rm_destroy_def AbortIf_def AbortIfNot_def)

lemma rm_destroy_success:
  "fst (rm_destroy r sys) \<Longrightarrow> \<not> is_init_r (snd (rm_destroy r sys))"
  by (auto simp: rm_destroy_def AbortIf_def AbortIfNot_def split: if_splits)

lemma rm_step_manager_init:
  assumes "is_init_m (manager_r r)"
  shows "is_init_m (manager_r (fst (rm_step op (r, h))))"
proof (cases op)
  case (RCreate sys name access sz)
  with rm_create_manager_init(2) [OF assms] show ?thesis by simp
next
  case (RDestroy sys)
  with assms show ?thesis by (simp add: rm_destroy_manager)
next
  case (RRead buf sz)
  with assms show ?thesis by simp
next
  case (RWrite sys buf sz)
  with assms show ?thesis by simp
qed

lemma rm_run_manager_init:
  "is_init_m (manager_r r) \<Longrightarrow> is_init_m (manager_r (fst (rm_run ops (r, h))))"
proof (induction ops arbitrary: r h)
  case Nil
  then show ?case by simp
next
  case (Cons op ops)
  from rm_step_manager_init [OF Cons.prems, of op h]
  have "is_init_m (manager_r (fst (rm_run ops (fst (rm_step op (r, h)), snd (rm_step op (r, h))))))"
    by (rule Cons.IH)
  then show ?case by simp
qed

text \<open>
  C10. Once \<open>create\<close> has succeeded on an owner object, every later \<open>create\<close> on the same
  object fails, whatever calls (\<open>create\<close>, \<open>destroy\<close>, \<open>read\<close>, \<open>write\<close>) are made in between
  and whatever the operating system answers, because the Pool of the object stays
  initialised and its \<open>init\<close> rejects a second initialisation. In particular a successful
  \<open>destroy\<close> clears the created flag of the owner and leaves its Pool as it is, and a
  \<open>create\<close> after it fails.
\<close>

theorem create_at_most_once:
  assumes "fst (rm_create r0 sys0 h0 name0 access0 sz0)"
    and "rm_run ops (snd (rm_create r0 sys0 h0 name0 access0 sz0)) = (r, h)"
  shows "is_init_m (manager_r r)
         \<and> \<not> fst (rm_create r sys h' name access sz)
         \<and> (fst (rm_destroy r sysd) \<longrightarrow>
              \<not> is_init_r (snd (rm_destroy r sysd))
              \<and> manager_r (snd (rm_destroy r sysd)) = manager_r r
              \<and> \<not> fst (rm_create (snd (rm_destroy r sysd)) sys h' name access sz))"
proof -
  let ?st = "snd (rm_create r0 sys0 h0 name0 access0 sz0)"
  have "is_init_m (manager_r (fst ?st))"
    by (rule rm_create_success(1) [OF assms(1)])
  from rm_run_manager_init [OF this, of ops "snd ?st"] assms(2)
  have init: "is_init_m (manager_r r)" by simp
  then have init': "is_init_m (manager_r (snd (rm_destroy r sysd)))"
    by (simp add: rm_destroy_manager)
  show ?thesis
    using init rm_create_manager_init(1) [OF init] rm_create_manager_init(1) [OF init']
      rm_destroy_success [of r sysd] rm_destroy_manager [of r sysd]
    by simp
qed

lemma test1_create:
  "rm_create RemoteMemory_new good_os zero_heap ''test1'' read_write 10
     = (True,
        \<lparr>access_r = read_write, addr_r = 4096, fd_r = 3, is_init_r = True,
         manager_r = (fresh_pool 4096 10)
            \<lparr>in_use_m := [\<lparr>id_b = 0, offset_b = 0, size_b = 10\<rparr>],
             vacant_m := [], last_index_m := 1\<rparr>,
         mem_id_r = 0, name_r = ''/test1'', size_r = 10\<rparr>, zero_heap)"
  by (simp add: rm_create_def rm_init_def RemoteMemory_new_def good_os_def mm_init_def
      mm_allocate_def mm_allocate_impl_def MemoryManager_new_def fresh_pool_def
      AbortIf_def AbortIfNot_def Let_def)

theorem create_at_most_once_witness:
  "fst (rm_create RemoteMemory_new good_os zero_heap ''test1'' read_write 10)
   \<and> rm_run [] (snd (rm_create RemoteMemory_new good_os zero_heap ''test1'' read_write 10))
       = snd (rm_create RemoteMemory_new good_os zero_heap ''test1'' read_write 10)
   \<and> fst (rm_destroy
            (fst (snd (rm_create RemoteMemory_new good_os zero_heap ''test1'' read_write 10)))
            good_os)
   \<and> \<not> fst (rm_create
              (snd (rm_destroy
                 (fst (snd (rm_create RemoteMemory_new good_os zero_heap ''test1'' read_write 10)))
                 good_os))
              good_os zero_heap ''test1'' read_write 10)"
proof -
  let ?st = "snd (rm_create RemoteMemory_new good_os zero_heap ''test1'' read_write 10)"
  have c: "fst (rm_create RemoteMemory_new good_os zero_heap ''test1'' read_write 10)"
    by (simp add: test1_create)
  have r: "rm_run [] ?st = (fst ?st, snd ?st)"
    by simp
  have d: "fst (rm_destroy (fst ?st) good_os)"
    unfolding test1_create
    by (simp add: rm_destroy_def good_os_def AbortIf_def AbortIfNot_def)
  from create_at_most_once [where sys = good_os and h' = zero_heap and name = "''test1''"
      and access = read_write and sz = 10 and sysd = good_os, OF c r] c d
  show ?thesis by simp
qed

section \<open>Attaching a client\<close>

lemma real_name_normalize:
  "name \<noteq> [] \<Longrightarrow> (if hd name \<noteq> CHR ''/'' then ''/'' @ name else name) = normalize_name name"
  by (cases name) (simp_all add: normalize_name_def)

lemma mc_attach_empty: "mc_attach c sys h [] access sz i0 = (False, c, h, i0)"
  by (simp add: mc_attach_def AbortIf_def split: access_t.splits)

lemma mc_attach_duplicate:
  assumes "name \<noteq> []" and "\<exists>s \<in> set (servers_c c). name_s s = normalize_name name"
  shows "mc_attach c sys h name access sz i0 = (False, c, h, i0)"
  using assms real_name_normalize [OF assms(1)]
  by (simp add: mc_attach_def AbortIf_def Let_def split: access_t.splits)

lemma mc_attach_failure:
  assumes "mc_attach c sys h name access sz i0 = (False, c1, h1, i)"
  shows "c1 = c \<and> i = i0"
  using assms
  by (auto simp: mc_attach_def AbortIf_def AbortIfNot_def Let_def
      split: access_t.splits prod.splits if_splits)

lemma mc_attach_success:
  assumes "mc_attach c sys h name access sz i0 = (True, c1, h1, i)"
  shows "name \<noteq> [] \<and> (\<forall>s \<in> set (servers_c c). name_s s \<noteq> normalize_name name)
         \<and> i = last_id_c c \<and> last_id_c c1 = last_id_c c + 1
         \<and> (\<exists>srv. servers_c c1 = servers_c c @ [srv] \<and> id_s srv = last_id_c c
                \<and> access_s srv = access \<and> name_s srv = normalize_name name)"
proof -
  from assms have ne: "name \<noteq> []"
    by (auto simp: mc_attach_def AbortIf_def split: access_t.splits prod.splits if_splits)
  note rn = real_name_normalize [OF ne]
  from assms ne show ?thesis
    unfolding mc_attach_def Let_def rn
    by (auto simp: AbortIf_def AbortIfNot_def server_init_def Server_new_def
        split: access_t.splits prod.splits if_splits)
qed

lemma normalize_cases:
  "normalize_name (CHR ''/'' # name) = CHR ''/'' # name"
  "name \<noteq> [] \<Longrightarrow> hd name \<noteq> CHR ''/'' \<Longrightarrow> normalize_name name = CHR ''/'' # name"
  "name \<noteq> [] \<Longrightarrow> hd name \<noteq> CHR ''/'' \<Longrightarrow> normalize_name (CHR ''/'' # name) = normalize_name name"
  by (cases name; simp add: normalize_name_def)+

text \<open>
  C9. \<open>attach\<close> fails on the empty name. It fails whenever the client already holds a
  record whose name is the normalised name of the argument, and then leaves the client,
  the memory and the caller's handle variable as they were. A successful \<open>attach\<close> adds
  one record, stored under the normalised name; any later \<open>attach\<close> of that client with a
  name that normalises to the same string fails and changes nothing. Normalising puts
  the separator \<open>/\<close> in front of a name that does not start with it and keeps a name that
  does, so a name without the separator and the same name with it are the same region.
\<close>

theorem attach_rejects_duplicate_name:
  "mc_attach c sys h [] access sz i0 = (False, c, h, i0)
   \<and> (name \<noteq> [] \<and> (\<exists>s \<in> set (servers_c c). name_s s = normalize_name name) \<longrightarrow>
        mc_attach c sys h name access sz i0 = (False, c, h, i0))
   \<and> (mc_attach c sys h name access sz i0 = (True, c1, h1, i) \<longrightarrow>
        (\<exists>srv. servers_c c1 = servers_c c @ [srv] \<and> name_s srv = normalize_name name)
        \<and> (\<forall>name'. name' \<noteq> [] \<and> normalize_name name' = normalize_name name \<longrightarrow>
              mc_attach c1 sys' h' name' access' sz' i1 = (False, c1, h', i1)))
   \<and> normalize_name (CHR ''/'' # name) = CHR ''/'' # name
   \<and> (name \<noteq> [] \<and> hd name \<noteq> CHR ''/'' \<longrightarrow>
        normalize_name name = CHR ''/'' # name \<and> normalize_name (CHR ''/'' # name) = normalize_name name)"
proof (intro conjI)
  show "mc_attach c sys h [] access sz i0 = (False, c, h, i0)"
    by (rule mc_attach_empty)
  show "name \<noteq> [] \<and> (\<exists>s \<in> set (servers_c c). name_s s = normalize_name name) \<longrightarrow>
     mc_attach c sys h name access sz i0 = (False, c, h, i0)"
    using mc_attach_duplicate by blast
  show "mc_attach c sys h name access sz i0 = (True, c1, h1, i) \<longrightarrow>
     (\<exists>srv. servers_c c1 = servers_c c @ [srv] \<and> name_s srv = normalize_name name)
     \<and> (\<forall>name'. name' \<noteq> [] \<and> normalize_name name' = normalize_name name \<longrightarrow>
           mc_attach c1 sys' h' name' access' sz' i1 = (False, c1, h', i1))"
  proof
    assume a: "mc_attach c sys h name access sz i0 = (True, c1, h1, i)"
    from mc_attach_success [OF a] obtain srv where
      srv: "servers_c c1 = servers_c c @ [srv]" "name_s srv = normalize_name name"
      by blast
    have "mc_attach c1 sys' h' name' access' sz' i1 = (False, c1, h', i1)"
      if "name' \<noteq> [] \<and> normalize_name name' = normalize_name name" for name'
    proof (rule mc_attach_duplicate)
      show "name' \<noteq> []" using that by simp
      show "\<exists>s \<in> set (servers_c c1). name_s s = normalize_name name'"
        using srv that by simp
    qed
    with srv show "(\<exists>srv. servers_c c1 = servers_c c @ [srv] \<and> name_s srv = normalize_name name)
     \<and> (\<forall>name'. name' \<noteq> [] \<and> normalize_name name' = normalize_name name \<longrightarrow>
           mc_attach c1 sys' h' name' access' sz' i1 = (False, c1, h', i1))"
      by blast
  qed
  show "normalize_name (CHR ''/'' # name) = CHR ''/'' # name"
    by (rule normalize_cases)
  show "name \<noteq> [] \<and> hd name \<noteq> CHR ''/'' \<longrightarrow>
     normalize_name name = CHR ''/'' # name \<and> normalize_name (CHR ''/'' # name) = normalize_name name"
    using normalize_cases by blast
qed

lemma test1_attach:
  "mc_attach MemoryClient_new good_os zero_heap ''test1'' read_write 10 7
     = (True,
        \<lparr>last_id_c = 1,
         servers_c = [\<lparr>access_s = read_write, addr_s = 4096, fd_s = 3, id_s = 0,
            manager_s = (fresh_pool 4096 10)
              \<lparr>in_use_m := [\<lparr>id_b = 0, offset_b = 0, size_b = 10\<rparr>],
               vacant_m := [], last_index_m := 1\<rparr>,
            mem_id_s = 0, name_s = ''/test1'', size_s = 10\<rparr>]\<rparr>,
        zero_heap, 0)"
  by (simp add: mc_attach_def MemoryClient_new_def server_init_def Server_new_def good_os_def
      mm_init_def mm_allocate_def mm_allocate_impl_def MemoryManager_new_def fresh_pool_def
      AbortIf_def AbortIfNot_def Let_def)

theorem attach_rejects_duplicate_name_witness:
  "mc_attach test1_client good_os zero_heap ''/test1'' read_only 10 7
     = (False, test1_client, zero_heap, 7)
   \<and> mc_attach test1_client good_os zero_heap ''test1'' read_write 10 7
     = (False, test1_client, zero_heap, 7)
   \<and> map name_s (servers_c test1_client) = [''/test1'']"
proof -
  have a: "mc_attach MemoryClient_new good_os zero_heap ''test1'' read_write 10 7
             = (True, test1_client, zero_heap, 0)"
    by (simp add: test1_client_def test1_attach)
  have n1: "''/test1'' \<noteq> [] \<and> normalize_name ''/test1'' = normalize_name ''test1''"
    and n2: "''test1'' \<noteq> [] \<and> normalize_name ''test1'' = normalize_name ''test1''"
    by (simp_all add: normalize_name_def)
  have names: "map name_s (servers_c test1_client) = [''/test1'']"
    by (simp add: test1_client_def test1_attach)
  from attach_rejects_duplicate_name [where c = MemoryClient_new and sys = good_os
      and h = zero_heap and name = "''test1''" and access = read_write and sz = 10 and ?i0.0 = 7
      and ?c1.0 = test1_client and ?h1.0 = zero_heap and i = 0 and sys' = good_os
      and h' = zero_heap and access' = read_only and sz' = 10 and ?i1.0 = 7]
    attach_rejects_duplicate_name [where c = MemoryClient_new and sys = good_os
      and h = zero_heap and name = "''test1''" and access = read_write and sz = 10 and ?i0.0 = 7
      and ?c1.0 = test1_client and ?h1.0 = zero_heap and i = 0 and sys' = good_os
      and h' = zero_heap and access' = read_write and sz' = 10 and ?i1.0 = 7]
    a n1 n2 names
  show ?thesis by blast
qed

section \<open>Writing through a read-only handle\<close>

lemma mc_lookup_Some:
  "mc_lookup c i = Some (pre, s, post) \<Longrightarrow>
     servers_c c = pre @ s # post \<and> id_s s = i"
  by (auto simp: mc_lookup_def dest: find_iter_Some)

lemma ro_handle_write:
  assumes "ro_handle i c"
  shows "mc_write c sys h i buf n = (False, h)"
proof (cases "mc_lookup c i")
  case None
  then show ?thesis by (simp add: mc_write_def)
next
  case (Some it)
  obtain pre s post where it: "it = (pre, s, post)" by (cases it)
  from mc_lookup_Some [of c i pre s post] Some it assms have "access_s s = read_only"
    by (auto simp: ro_handle_def)
  with Some it show ?thesis
    by (simp add: mc_write_def AbortIf_def)
qed

lemma mc_attach_cases:
  obtains (fail) h1 where "mc_attach c sys h name access sz i0 = (False, c, h1, i0)"
  | (ok) c1 h1 where "mc_attach c sys h name access sz i0 = (True, c1, h1, last_id_c c)"
proof -
  obtain b c1 h1 i where r: "mc_attach c sys h name access sz i0 = (b, c1, h1, i)"
    by (cases "mc_attach c sys h name access sz i0") auto
  show thesis
  proof (cases b)
    case True
    with r mc_attach_success [of c sys h name access sz i0 c1 h1 i] ok show ?thesis by simp
  next
    case False
    with r mc_attach_failure [of c sys h name access sz i0 c1 h1 i] fail show ?thesis by simp
  qed
qed

lemma mc_destroy_servers:
  "set (servers_c (snd (mc_destroy c sys i))) \<subseteq> set (servers_c c)
   \<and> last_id_c (snd (mc_destroy c sys i)) = last_id_c c"
  by (auto simp: mc_destroy_def AbortIf_def split: option.splits dest: mc_lookup_Some)

lemma client_inv_step:
  assumes "client_inv c"
  shows "client_inv (fst (mc_step op (c, h)))"
proof (cases op)
  case (Attach sys name access sz)
  show ?thesis
  proof (cases rule: mc_attach_cases [of c sys h name access sz 0])
    case (fail h1)
    with Attach assms show ?thesis by simp
  next
    case (ok c1 h1)
    from mc_attach_success [OF ok] assms have "client_inv c1"
      by (fastforce simp: client_inv_def)
    with Attach ok show ?thesis by simp
  qed
next
  case (Destroy sys i)
  with assms mc_destroy_servers [of c sys i] show ?thesis
    by (auto simp: client_inv_def)
next
  case (CRead i buf sz)
  with assms show ?thesis by simp
next
  case (CWrite sys i buf sz)
  with assms show ?thesis by simp
qed

lemma client_inv_run:
  "client_inv c \<Longrightarrow> client_inv (fst (mc_run ops (c, h)))"
proof (induction ops arbitrary: c h)
  case Nil
  then show ?case by simp
next
  case (Cons op ops)
  from client_inv_step [OF Cons.prems, of op h]
  have "client_inv (fst (mc_run ops (fst (mc_step op (c, h)), snd (mc_step op (c, h)))))"
    by (rule Cons.IH)
  then show ?case by simp
qed

lemma ro_handle_step:
  assumes "ro_handle i c"
  shows "ro_handle i (fst (mc_step op (c, h)))"
proof (cases op)
  case (Attach sys name access sz)
  show ?thesis
  proof (cases rule: mc_attach_cases [of c sys h name access sz 0])
    case (fail h1)
    with Attach assms show ?thesis by simp
  next
    case (ok c1 h1)
    from mc_attach_success [OF ok] assms have "ro_handle i c1"
      by (auto simp: ro_handle_def)
    with Attach ok show ?thesis by simp
  qed
next
  case (Destroy sys j)
  with assms mc_destroy_servers [of c sys j] show ?thesis
    by (auto simp: ro_handle_def)
next
  case (CRead j buf sz)
  with assms show ?thesis by simp
next
  case (CWrite sys j buf sz)
  with assms show ?thesis by simp
qed

lemma ro_handle_run:
  "ro_handle i c \<Longrightarrow> ro_handle i (fst (mc_run ops (c, h)))"
proof (induction ops arbitrary: c h)
  case Nil
  then show ?case by simp
next
  case (Cons op ops)
  from ro_handle_step [OF Cons.prems, of op h]
  have "ro_handle i (fst (mc_run ops (fst (mc_step op (c, h)), snd (mc_step op (c, h)))))"
    by (rule Cons.IH)
  then show ?case by simp
qed

text \<open>
  C2, amended. On a client object (in any state reached from its construction), when
  \<open>attach\<close> with \<open>read_only\<close> access succeeds and returns the handle \<open>i\<close>, every \<open>write\<close>
  with the handle \<open>i\<close> made afterwards on that client fails and leaves the memory exactly
  as it was, whatever other calls are made in between and whatever the memory holds.
\<close>

theorem client_read_only_write_fails:
  assumes "mc_run ops1 (MemoryClient_new, h0) = (c, h)"
    and "mc_attach c sys h name read_only sz i0 = (True, c1, h1, i)"
    and "mc_run ops2 (c1, h1) = (c2, h2)"
  shows "mc_write c2 sys' h' i buf n = (False, h')"
proof -
  have "client_inv MemoryClient_new"
    by (simp add: client_inv_def MemoryClient_new_def)
  from client_inv_run [OF this, of ops1 h0] assms(1) have inv: "client_inv c"
    by simp
  from mc_attach_success [OF assms(2)] inv have "ro_handle i c1"
    by (fastforce simp: ro_handle_def client_inv_def)
  from ro_handle_run [OF this, of ops2 h1] assms(3) have "ro_handle i c2"
    by simp
  then show ?thesis by (rule ro_handle_write)
qed

lemma test2_attach:
  "mc_attach test1_client good_os zero_heap ''test2'' read_only 10 7
     = (True, test_client, zero_heap, 1)"
  unfolding test_client_def test1_client_def test1_attach
  by (simp add: mc_attach_def server_init_def Server_new_def good_os_def
      mm_init_def mm_allocate_def mm_allocate_impl_def MemoryManager_new_def fresh_pool_def
      AbortIf_def AbortIfNot_def Let_def)

theorem client_read_only_write_fails_witness:
  "mc_run [Attach good_os ''test1'' read_write 10] (MemoryClient_new, zero_heap)
     = (test1_client, zero_heap)
   \<and> mc_attach test1_client good_os zero_heap ''test2'' read_only 10 7
     = (True, test_client, zero_heap, 1)
   \<and> mc_run [] (test_client, zero_heap) = (test_client, zero_heap)
   \<and> mc_write test_client good_os zero_heap 1 hello 5 = (False, zero_heap)"
proof -
  have r1: "mc_run [Attach good_os ''test1'' read_write 10] (MemoryClient_new, zero_heap)
     = (test1_client, zero_heap)"
    by (simp add: test1_client_def mc_attach_def MemoryClient_new_def server_init_def
      Server_new_def good_os_def mm_init_def mm_allocate_def mm_allocate_impl_def
      MemoryManager_new_def fresh_pool_def AbortIf_def AbortIfNot_def Let_def)
  have r2: "mc_run [] (test_client, zero_heap) = (test_client, zero_heap)"
    by simp
  from client_read_only_write_fails [OF r1 test2_attach r2, of good_os zero_heap hello 5]
    r1 test2_attach r2
  show ?thesis by simp
qed

lemma test2_owner_eq:
  "test2_owner =
     \<lparr>access_r = read_only, addr_r = 4096, fd_r = 3, is_init_r = True,
      manager_r = (fresh_pool 4096 10)
         \<lparr>in_use_m := [\<lparr>id_b = 0, offset_b = 0, size_b = 10\<rparr>],
          vacant_m := [], last_index_m := 1\<rparr>,
      mem_id_r = 0, name_r = ''/test2'', size_r = 10\<rparr>"
  by (simp add: test2_owner_def rm_create_def rm_init_def RemoteMemory_new_def good_os_def
      mm_init_def mm_allocate_def mm_allocate_impl_def MemoryManager_new_def fresh_pool_def
      AbortIf_def AbortIfNot_def Let_def)

text \<open>
  C2, as stated, fails for the owner. The owner of the test program is created with
  \<open>read_only\<close> access; its \<open>write\<close> of the five bytes of \<^verbatim>\<open>"hello"\<close> succeeds and changes
  the mapped memory: \<^verbatim>\<open>RemoteMemory::write\<close> does not look at the access policy.
\<close>

theorem owner_read_only_write_counterexample:
  "fst (rm_create RemoteMemory_new good_os zero_heap ''test2'' read_only 10)
   \<and> access_r test2_owner = read_only
   \<and> fst (rm_write test2_owner good_os zero_heap hello 5)
   \<and> zero_heap 4096 = 0
   \<and> snd (rm_write test2_owner good_os zero_heap hello 5) 4096 = 104
   \<and> snd (rm_write test2_owner good_os zero_heap hello 5) \<noteq> zero_heap"
proof -
  have c: "fst (rm_create RemoteMemory_new good_os zero_heap ''test2'' read_only 10)"
    by (simp add: rm_create_def rm_init_def RemoteMemory_new_def good_os_def
      mm_init_def mm_allocate_def mm_allocate_impl_def MemoryManager_new_def fresh_pool_def
      AbortIf_def AbortIfNot_def Let_def)
  have w: "rm_write test2_owner good_os zero_heap hello 5
             = (True, memcpy zero_heap 4096 hello 5)"
    by (simp add: test2_owner_eq rm_write_def mm_write_def mm_lookup_def good_os_def
        fresh_pool_def AbortIf_def AbortIfNot_def)
  have v: "memcpy zero_heap 4096 hello 5 4096 = 104"
    by (simp add: memcpy_def hello_def)
  have z: "zero_heap 4096 = 0"
    by (simp add: zero_heap_def)
  have ne: "memcpy zero_heap 4096 hello 5 \<noteq> zero_heap"
  proof
    assume "memcpy zero_heap 4096 hello 5 = zero_heap"
    then have "memcpy zero_heap 4096 hello 5 4096 = zero_heap 4096"
      by simp
    with v z show False by simp
  qed
  from c w v z ne show ?thesis
    by (simp add: test2_owner_eq)
qed

end
